theory Spec2Isabelle
  imports Complex_Main "HOL-Library.AList"
begin

section \<open>Values\<close>

text \<open>
  The source is \<^verbatim>\<open>src/fixtures/parallelizer/remote.py\<close>, a Python 2 module (its sibling
  modules use \<^verbatim>\<open>iteritems\<close> and \<^verbatim>\<open>basestring\<close>).

  What \<^verbatim>\<open>recv_json\<close> delivers and what \<^verbatim>\<open>send_json\<close> accepts is JSON data.
\<close>

datatype json =
    JNull
  | JBool bool
  | JNum rat
  | JStr string
  | JList "json list"
  | JObj "(string \<times> json) list"

text \<open>
  Python values that the coordinator handles: plain data, and references to objects in
  the store (a report, a \<^verbatim>\<open>py.path.local\<close>, a result object, a dictionary).
\<close>

type_synonym addr = nat

datatype pyval =
    PNone
  | PBool bool
  | PNum rat
  | PStr string
  | PList "pyval list"
  | PDict "(string \<times> pyval) list"
  | PRef addr

text \<open>
  An instance carries what the code asks of it: whether it is a \<^verbatim>\<open>py.path.local\<close>,
  the attribute names that \<^verbatim>\<open>hasattr\<close> answers to (such as \<^verbatim>\<open>toterminal\<close>), what
  \<^verbatim>\<open>str()\<close> gives, and the address of its \<^verbatim>\<open>__dict__\<close> (if it has one).
\<close>

record pyinst =
  is_local :: bool
  attrs :: "string list"
  str_of :: string
  dict_ref :: "addr option"

datatype cell = Dict "(string \<times> pyval) list" | Instance pyinst

type_synonym heap = "cell list"

definition deref :: "heap \<Rightarrow> addr \<Rightarrow> cell option" where
  "deref h a = (if a < length h then Some (h ! a) else None)"

definition alloc :: "cell \<Rightarrow> heap \<Rightarrow> addr \<times> heap" where
  "alloc c h = (length h, h @ [c])"

definition store :: "addr \<Rightarrow> cell \<Rightarrow> heap \<Rightarrow> heap" where
  "store a c h = (if a < length h then h[a := c] else h)"

text \<open>\<^verbatim>\<open>json.dumps\<close>: plain data only; an object reference is not serializable.\<close>

fun to_json :: "pyval \<Rightarrow> json option"
  and to_json_list :: "pyval list \<Rightarrow> json list option"
  and to_json_items :: "(string \<times> pyval) list \<Rightarrow> (string \<times> json) list option" where
  "to_json PNone = Some JNull"
| "to_json (PBool b) = Some (JBool b)"
| "to_json (PNum n) = Some (JNum n)"
| "to_json (PStr s) = Some (JStr s)"
| "to_json (PList xs) = map_option JList (to_json_list xs)"
| "to_json (PDict kvs) = map_option JObj (to_json_items kvs)"
| "to_json (PRef a) = None"
| "to_json_list [] = Some []"
| "to_json_list (x # xs) =
     (case to_json x of None \<Rightarrow> None
      | Some j \<Rightarrow> map_option ((#) j) (to_json_list xs))"
| "to_json_items [] = Some []"
| "to_json_items (kv # kvs) =
     (case to_json (snd kv) of None \<Rightarrow> None
      | Some j \<Rightarrow> map_option ((#) (fst kv, j)) (to_json_items kvs))"

text \<open>
  A keyword argument that refers to a dictionary in the store (the serialized report) is
  dumped through the reference; any other reference makes \<^verbatim>\<open>send_json\<close> raise.
\<close>

definition dump_arg :: "heap \<Rightarrow> pyval \<Rightarrow> json option" where
  "dump_arg h v =
     (case v of
        PRef a \<Rightarrow>
          (case deref h a of
             Some (Dict kvs) \<Rightarrow> map_option JObj (to_json_items kvs)
           | _ \<Rightarrow> None)
      | _ \<Rightarrow> to_json v)"

fun dump_kwargs :: "heap \<Rightarrow> (string \<times> pyval) list \<Rightarrow> (string \<times> json) list option" where
  "dump_kwargs h [] = Some []"
| "dump_kwargs h (kv # kvs) =
     (case dump_arg h (snd kv) of None \<Rightarrow> None
      | Some j \<Rightarrow> map_option ((#) (fst kv, j)) (dump_kwargs h kvs))"

text \<open>Python truthiness of a decoded reply (\<^verbatim>\<open>not node_ids\<close>).\<close>

fun truthy :: "json \<Rightarrow> bool" where
  "truthy JNull = False"
| "truthy (JBool b) = b"
| "truthy (JNum n) = (n \<noteq> 0)"
| "truthy (JStr s) = (s \<noteq> [])"
| "truthy (JList xs) = (xs \<noteq> [])"
| "truthy (JObj kvs) = (kvs \<noteq> [])"

section \<open>Errors and outcomes\<close>

text \<open>
  Every \<^verbatim>\<open>raise\<close> of the source is a value. \<open>RecvBlocked\<close> is not an exception: it
  stands for the blocking \<^verbatim>\<open>recv_json\<close> that never returns because the master sends
  no further reply.
\<close>

datatype error =
    SystemExit
  | KeyError json
  | TypeError
  | AttributeError
  | IndexError
  | RecvBlocked

section \<open>Coordinator state\<close>

text \<open>
  A collected test item: its node id, and an identity that tells apart two items with the
  same node id.
\<close>

datatype item = Item (nodeid: string) (ident: nat)

text \<open>What an outside observer sees of a run, oldest first.\<close>

datatype obs =
    Sent "(string \<times> json) list"
  | Received json
  | Began item "item option"
  | Finished item

text \<open>
  Calls that the surrounding engine (or the operating system, for the signal) makes on the
  coordinator while a test runs.
\<close>

datatype action =
    Runtest_logstart string pyval
  | Runtest_logreport pyval
  | Internalerror string
  | Handle_quit

record config =
  collectonly :: bool
  pytest_runtest_protocol :: "item \<Rightarrow> item option \<Rightarrow> action list"

text \<open>
  The fields of \<^verbatim>\<open>SlaveManager\<close> that the code reads or writes, the store of objects,
  and the two ends of the socket: \<open>inbox\<close> holds the replies the master is going to
  give, in order, and \<open>trace\<close> records what has been sent, received and run.
\<close>

record st =
  config :: config
  session :: "item list option"
  collection :: "(string \<times> item) list option"
  quit_signaled :: bool
  heap :: heap
  inbox :: "json list"
  trace :: "obs list"

type_synonym 'a m = "st \<Rightarrow> (error + 'a) \<times> st"

definition andthen :: "'a m \<Rightarrow> ('a \<Rightarrow> 'b m) \<Rightarrow> 'b m" where
  "andthen f g st =
     (case f st of
        (Inl e, st') \<Rightarrow> (Inl e, st')
      | (Inr x, st') \<Rightarrow> g x st')"

section \<open>send_event\<close>

definition send_event :: "string \<Rightarrow> (string \<times> pyval) list \<Rightarrow> json m" where
  "send_event name kwargs st =
     (let kw = AList.update ''_event_name'' (PStr name) kwargs in
      case dump_kwargs (heap st) kw of
        None \<Rightarrow> (Inl TypeError, st)
      | Some msg \<Rightarrow>
          (let st1 = st\<lparr>trace := trace st @ [Sent msg]\<rparr> in
           case inbox st1 of
             [] \<Rightarrow> (Inl RecvBlocked, st1)
           | recv # rest \<Rightarrow>
               (let st2 = st1\<lparr>inbox := rest, trace := trace st1 @ [Received recv]\<rparr> in
                if recv = JStr ''die'' then (Inl SystemExit, st2)
                else if recv \<noteq> JStr ''ack'' then (Inr recv, st2)
                else (Inr JNull, st2))))"

definition message :: "string \<Rightarrow> (string \<times> pyval) list \<Rightarrow> unit m" where
  "message msg kwargs =
     andthen (send_event ''message'' [(''message'', PStr msg), (''markup'', PDict kwargs)])
       (\<lambda>_ st. (Inr (), st))"

section \<open>serialize_report\<close>

definition instance_of :: "heap \<Rightarrow> pyval \<Rightarrow> pyinst option" where
  "instance_of h v =
     (case v of
        PRef a \<Rightarrow> (case deref h a of Some (Instance i) \<Rightarrow> Some i | _ \<Rightarrow> None)
      | _ \<Rightarrow> None)"

text \<open>
  The contents of \<^verbatim>\<open>obj.__dict__\<close>. The attribute \<^verbatim>\<open>rep.longrepr\<close> is read from
  it: a report's \<^verbatim>\<open>longrepr\<close> is an instance attribute.
\<close>

definition dict_of :: "heap \<Rightarrow> pyinst \<Rightarrow> (string \<times> pyval) list option" where
  "dict_of h i =
     (case dict_ref i of
        None \<Rightarrow> None
      | Some da \<Rightarrow> (case deref h da of Some (Dict kvs) \<Rightarrow> Some kvs | _ \<Rightarrow> None))"

definition hasattr :: "heap \<Rightarrow> pyval \<Rightarrow> string \<Rightarrow> bool" where
  "hasattr h v name =
     (case instance_of h v of
        None \<Rightarrow> False
      | Some i \<Rightarrow> name \<in> set (attrs i))"

text \<open>
  \<^verbatim>\<open>str(v)\<close> under the guard \<^verbatim>\<open>hasattr(v, 'toterminal')\<close>, and under the guard
  \<^verbatim>\<open>isinstance(v, local)\<close>: \<open>None\<close> when the guard fails. Both guards hold of
  instances only, so \<^verbatim>\<open>str\<close> is never applied to plain data here.
\<close>

definition toterminal_str :: "heap \<Rightarrow> pyval \<Rightarrow> string option" where
  "toterminal_str h v =
     (case instance_of h v of
        None \<Rightarrow> None
      | Some i \<Rightarrow> if hasattr h v ''toterminal'' then Some (str_of i) else None)"

definition local_str :: "heap \<Rightarrow> pyval \<Rightarrow> string option" where
  "local_str h v =
     (case instance_of h v of
        None \<Rightarrow> None
      | Some i \<Rightarrow> if is_local i then Some (str_of i) else None)"

text \<open>
  The loop \<^verbatim>\<open>for name in d\<close>, over the keys the dictionary at address \<open>d\<close> had when
  the loop began; each round reads and writes that dictionary in the store.
\<close>

fun serialize_fields :: "addr \<Rightarrow> string list \<Rightarrow> heap \<Rightarrow> (error + unit) \<times> heap" where
  "serialize_fields d [] h = (Inr (), h)"
| "serialize_fields d (name # names) h =
     (case deref h d of
        Some (Dict kvs) \<Rightarrow>
          (case map_of kvs name of
             None \<Rightarrow> (Inl (KeyError (JStr name)), h)
           | Some v \<Rightarrow>
               (case local_str h v of
                  Some s \<Rightarrow>
                    serialize_fields d names (store d (Dict (AList.update name (PStr s) kvs)) h)
                | None \<Rightarrow>
                    if name = ''result''
                    then serialize_fields d names (store d (Dict (AList.update name PNone kvs)) h)
                    else serialize_fields d names h))
      | _ \<Rightarrow> (Inl TypeError, h))"

definition serialize_report :: "pyval \<Rightarrow> heap \<Rightarrow> (error + pyval) \<times> heap" where
  "serialize_report rep h =
     (case instance_of h rep of
        None \<Rightarrow> (Inl AttributeError, h)
      | Some i \<Rightarrow>
          (case dict_of h i of
             None \<Rightarrow> (Inl AttributeError, h)
           | Some kvs \<Rightarrow>
               (let (d, h1) = alloc (Dict kvs) h in
                case map_of kvs ''longrepr'' of
                  None \<Rightarrow> (Inl AttributeError, h1)
                | Some lr \<Rightarrow>
                    (let v = (case toterminal_str h1 lr of Some s \<Rightarrow> PStr s | None \<Rightarrow> lr);
                         kvs1 = AList.update ''longrepr'' v kvs;
                         h2 = store d (Dict kvs1) h1
                     in case serialize_fields d (map fst kvs1) h2 of
                          (Inl e, h3) \<Rightarrow> (Inl e, h3)
                        | (Inr _, h3) \<Rightarrow> (Inr (PRef d), h3)))))"

section \<open>Hooks\<close>

text \<open>
  Calls to the logger are left out throughout: they touch nothing the coordinator reads.

  \<^verbatim>\<open>{item.nodeid: item for item in session.items}\<close>: a later item with the same
  node id replaces the earlier one. (A Python 2 dictionary fixes no key order; the model
  keeps insertion order.) \<^verbatim>\<open>terminalreporter.disable()\<close> belongs to another module
  and does not touch the coordinator; it is left out.
\<close>

definition collect :: "item list \<Rightarrow> (string \<times> item) list" where
  "collect items = fold (\<lambda>it. AList.update (nodeid it) it) items []"

definition pytest_collection_finish :: "item list \<Rightarrow> unit m" where
  "pytest_collection_finish items st =
     (let coll = collect items;
          st1 = st\<lparr>session := Some items, collection := Some coll\<rparr>
      in andthen
           (send_event ''collectionfinish'' [(''node_ids'', PList (map (PStr \<circ> fst) coll))])
           (\<lambda>_ s. (Inr (), s)) st1)"

definition pytest_runtest_logstart :: "string \<Rightarrow> pyval \<Rightarrow> unit m" where
  "pytest_runtest_logstart nid location =
     andthen (send_event ''runtest_logstart'' [(''nodeid'', PStr nid), (''location'', location)])
       (\<lambda>_ s. (Inr (), s))"

definition pytest_runtest_logreport :: "pyval \<Rightarrow> unit m" where
  "pytest_runtest_logreport report st =
     (case serialize_report report (heap st) of
        (Inl e, h') \<Rightarrow> (Inl e, st\<lparr>heap := h'\<rparr>)
      | (Inr d, h') \<Rightarrow>
          andthen (send_event ''runtest_logreport'' [(''report'', d)])
            (\<lambda>_ s. (Inr (), s)) (st\<lparr>heap := h'\<rparr>))"

text \<open>\<^verbatim>\<open>str.strip()\<close> and \<^verbatim>\<open>str.splitlines()\<close> of Python 2 byte strings.\<close>

definition is_space :: "char \<Rightarrow> bool" where
  "is_space c = (c \<in> set [CHR '' '', CHR 0x09, CHR 0x0A, CHR 0x0B, CHR 0x0C, CHR 0x0D])"

definition strip :: "string \<Rightarrow> string" where
  "strip s = rev (dropWhile is_space (rev (dropWhile is_space s)))"

fun splitlines_from :: "string \<Rightarrow> string \<Rightarrow> string list" where
  "splitlines_from cur [] = (if cur = [] then [] else [cur])"
| "splitlines_from cur (c # cs) =
     (if c = CHR 0x0A then cur # splitlines_from [] cs
      else if c = CHR 0x0D then
        (case cs of
           c' # cs' \<Rightarrow>
             if c' = CHR 0x0A then cur # splitlines_from [] cs'
             else cur # splitlines_from [] cs
         | [] \<Rightarrow> cur # splitlines_from [] cs)
      else splitlines_from (cur @ [c]) cs)"

definition splitlines :: "string \<Rightarrow> string list" where
  "splitlines s = splitlines_from [] s"

definition pytest_internalerror :: "string \<Rightarrow> unit m" where
  "pytest_internalerror excrepr st =
     (let msg = ''INTERNALERROR> '' @ excrepr in
      case splitlines (strip msg) of
        [] \<Rightarrow> (Inl IndexError, st)
      | l # ls \<Rightarrow>
          (let short_tb = ''INTERNALERROR> '' @ last (l # ls) in
           andthen (send_event ''internalerror'' [(''message'', PStr short_tb)])
             (\<lambda>_ s. (Inr (), s)) st))"

definition handle_quit :: "unit m" where
  "handle_quit =
     andthen (message ''shutting down after the current test due to QUIT signal'' [])
       (\<lambda>_ st. (Inr (), st\<lparr>quit_signaled := True\<rparr>))"

definition shutdown :: "unit m" where
  "shutdown =
     andthen (message ''shutting down'' [])
       (\<lambda>_. andthen (send_event ''shutdown'' [])
         (\<lambda>_ st. (Inr (), st\<lparr>quit_signaled := True\<rparr>)))"

definition pytest_sessionfinish :: "unit m" where
  "pytest_sessionfinish = shutdown"

section \<open>Pulling work from the master\<close>

text \<open>
  \<^verbatim>\<open>for nodeid in node_ids\<close>: a list gives its elements, a string its characters, a
  dictionary its keys; a number or a boolean is not iterable.
\<close>

definition py_iter :: "json \<Rightarrow> error + json list" where
  "py_iter v =
     (case v of
        JList xs \<Rightarrow> Inr xs
      | JStr s \<Rightarrow> Inr (map (\<lambda>c. JStr [c]) s)
      | JObj kvs \<Rightarrow> Inr (map (JStr \<circ> fst) kvs)
      | _ \<Rightarrow> Inl TypeError)"

text \<open>
  \<^verbatim>\<open>self.collection[nodeid]\<close>. The keys are node ids (strings). \<^verbatim>\<open>None\<close> is not
  subscriptable, a list or a dictionary is not hashable, and any other value that is not
  a key raises \<^verbatim>\<open>KeyError\<close>.
\<close>

definition collection_getitem :: "st \<Rightarrow> json \<Rightarrow> error + item" where
  "collection_getitem st nid =
     (case collection st of
        None \<Rightarrow> Inl TypeError
      | Some coll \<Rightarrow>
          (case nid of
             JStr s \<Rightarrow> (case map_of coll s of None \<Rightarrow> Inl (KeyError nid) | Some it \<Rightarrow> Inr it)
           | JList _ \<Rightarrow> Inl TypeError
           | JObj _ \<Rightarrow> Inl TypeError
           | _ \<Rightarrow> Inl (KeyError nid)))"

text \<open>
  The generator \<^verbatim>\<open>_iter_nodes\<close>, as the state it is suspended in: \<open>Pulling ids\<close> inside
  the \<^verbatim>\<open>for\<close> loop with \<open>ids\<close> still to come (\<open>Pulling []\<close> is the top of the
  \<^verbatim>\<open>while\<close> loop, and the state before the first \<^verbatim>\<open>next\<close>), \<open>Exhausted\<close> after the
  \<^verbatim>\<open>break\<close>. \<open>iter_nodes_next\<close> is \<^verbatim>\<open>next(node_iter)\<close>; the result \<open>None\<close> is
  \<^verbatim>\<open>StopIteration\<close>.
\<close>

datatype node_iter = Pulling "json list" | Exhausted

function iter_nodes_next :: "node_iter \<Rightarrow> st \<Rightarrow> (error + (item \<times> node_iter) option) \<times> st" where
  "iter_nodes_next Exhausted st = (Inr None, st)"
| "iter_nodes_next (Pulling (nid # rest)) st =
     (case collection_getitem st nid of
        Inl e \<Rightarrow> (Inl e, st)
      | Inr it \<Rightarrow> (Inr (Some (it, Pulling rest)), st))"
| "iter_nodes_next (Pulling []) st =
     (case send_event ''need_tests'' [] st of
        (Inl e, st') \<Rightarrow> (Inl e, st')
      | (Inr node_ids, st') \<Rightarrow>
          if \<not> truthy node_ids then (Inr None, st')
          else (case py_iter node_ids of
                  Inl e \<Rightarrow> (Inl e, st')
                | Inr ids \<Rightarrow> iter_nodes_next (Pulling ids) st'))"
  by pat_completeness auto

lemma send_event_inbox:
  "send_event name kwargs st = (Inr r, st') \<Longrightarrow> length (inbox st') < length (inbox st)"
  by (auto simp: send_event_def Let_def split: option.splits list.splits if_splits)

lemma send_event_inbox_le:
  "send_event name kwargs st = (r, st') \<Longrightarrow> length (inbox st') \<le> length (inbox st)"
  by (auto simp: send_event_def Let_def split: option.splits list.splits if_splits)

termination iter_nodes_next
  apply (relation "measure (\<lambda>(g, st). length (inbox st))")
   apply simp
  apply (auto dest: send_event_inbox [OF sym])
  done

text \<open>
  The generator \<^verbatim>\<open>_test_generator\<close>, as the state it is suspended in: \<open>Fresh\<close> before
  the first \<^verbatim>\<open>next\<close>; \<open>Holding nx it\<close> at \<^verbatim>\<open>yield run_node, next_node\<close> with
  \<open>nx\<close> the \<^verbatim>\<open>next_node\<close> and \<open>it\<close> the state of \<^verbatim>\<open>node_iter\<close>; \<open>Final\<close> at
  \<^verbatim>\<open>yield run_node, None\<close>; \<open>Closed\<close> once it has returned.

  In Python 2 a \<^verbatim>\<open>StopIteration\<close> that \<^verbatim>\<open>next(node_iter)\<close> raises inside the
  generator body ends the generator.
\<close>

datatype test_gen = Fresh | Holding item node_iter | Final | Closed

text \<open>The \<^verbatim>\<open>for next_node in node_iter\<close> loop from its head, with \<open>run_node\<close> in hand.\<close>

definition advance ::
  "item \<Rightarrow> node_iter \<Rightarrow> st \<Rightarrow> (error + ((item \<times> item option) \<times> test_gen) option) \<times> st" where
  "advance run_node it st =
     (case iter_nodes_next it st of
        (Inl e, st') \<Rightarrow> (Inl e, st')
      | (Inr None, st') \<Rightarrow> (Inr (Some ((run_node, None), Final)), st')
      | (Inr (Some (next_node, it')), st') \<Rightarrow>
          (Inr (Some ((run_node, Some next_node), Holding next_node it')), st'))"

fun test_generator_next ::
  "test_gen \<Rightarrow> st \<Rightarrow> (error + ((item \<times> item option) \<times> test_gen) option) \<times> st" where
  "test_generator_next Fresh st =
     (case iter_nodes_next (Pulling []) st of
        (Inl e, st') \<Rightarrow> (Inl e, st')
      | (Inr None, st') \<Rightarrow> (Inr None, st')
      | (Inr (Some (run_node, it)), st') \<Rightarrow> advance run_node it st')"
| "test_generator_next (Holding next_node it) st = advance next_node it st"
| "test_generator_next Final st = (Inr None, st)"
| "test_generator_next Closed st = (Inr None, st)"

section \<open>The run loop\<close>

fun run_action :: "action \<Rightarrow> unit m" where
  "run_action (Runtest_logstart nid location) = pytest_runtest_logstart nid location"
| "run_action (Runtest_logreport report) = pytest_runtest_logreport report"
| "run_action (Internalerror excrepr) = pytest_internalerror excrepr"
| "run_action Handle_quit = handle_quit"

fun run_actions :: "action list \<Rightarrow> unit m" where
  "run_actions [] st = (Inr (), st)"
| "run_actions (a # as) st =
     (case run_action a st of
        (Inl e, st') \<Rightarrow> (Inl e, st')
      | (Inr _, st') \<Rightarrow> run_actions as st')"

text \<open>
  \<^verbatim>\<open>self.config.hook.pytest_runtest_protocol(item=item, nextitem=nextitem)\<close>: the
  engine runs the test, calling back into the coordinator as the configuration says.
\<close>

definition run_protocol :: "item \<Rightarrow> item option \<Rightarrow> unit m" where
  "run_protocol item nextitem st =
     (case run_actions (pytest_runtest_protocol (config st) item nextitem)
             (st\<lparr>trace := trace st @ [Began item nextitem]\<rparr>) of
        (Inl e, st') \<Rightarrow> (Inl e, st')
      | (Inr _, st') \<Rightarrow> (Inr (), st'\<lparr>trace := trace st' @ [Finished item]\<rparr>))"

definition loop_body :: "item \<Rightarrow> item option \<Rightarrow> unit m" where
  "loop_body item nextitem st =
     (if collectonly (config st) then message (nodeid item) [] st
      else run_protocol item nextitem st)"

function run_loop :: "test_gen \<Rightarrow> st \<Rightarrow> (error + bool) \<times> st" where
  "run_loop g st =
     (case test_generator_next g st of
        (Inl e, st1) \<Rightarrow> (Inl e, st1)
      | (Inr None, st1) \<Rightarrow> (Inr True, st1)
      | (Inr (Some ((item, nextitem), g')), st1) \<Rightarrow>
          (case loop_body item nextitem st1 of
             (Inl e, st2) \<Rightarrow> (Inl e, st2)
           | (Inr _, st2) \<Rightarrow>
               if quit_signaled st2 then (Inr True, st2) else run_loop g' st2))"
  by pat_completeness auto

text \<open>\<^verbatim>\<open>list(self._test_generator())\<close>: every pair the generator yields, in order.\<close>

function test_generator_all :: "test_gen \<Rightarrow> st \<Rightarrow> (error + (item \<times> item option) list) \<times> st" where
  "test_generator_all g st =
     (case test_generator_next g st of
        (Inl e, st') \<Rightarrow> (Inl e, st')
      | (Inr None, st') \<Rightarrow> (Inr [], st')
      | (Inr (Some (p, g')), st') \<Rightarrow>
          (case test_generator_all g' st' of
             (Inl e, st'') \<Rightarrow> (Inl e, st'')
           | (Inr ps, st'') \<Rightarrow> (Inr (p # ps), st'')))"
  by pat_completeness auto

fun iter_size :: "node_iter \<Rightarrow> nat" where
  "iter_size (Pulling ids) = Suc (length ids)"
| "iter_size Exhausted = 0"

fun gen_size :: "test_gen \<Rightarrow> nat" where
  "gen_size Fresh = 0"
| "gen_size (Holding nx it) = Suc (Suc (iter_size it))"
| "gen_size Final = 1"
| "gen_size Closed = 0"

lemma andthen_inbox_le:
  assumes "\<And>s r s'. f s = (r, s') \<Longrightarrow> length (inbox s') \<le> length (inbox s)"
    and "\<And>x s r s'. g x s = (r, s') \<Longrightarrow> length (inbox s') \<le> length (inbox s)"
    and "andthen f g st = (r, st')"
  shows "length (inbox st') \<le> length (inbox st)"
proof (cases "f st")
  case (Pair a s1)
  with assms(1) have le1: "length (inbox s1) \<le> length (inbox st)" by blast
  show ?thesis
  proof (cases a)
    case (Inl e)
    with Pair assms(3) le1 show ?thesis by (simp add: andthen_def)
  next
    case (Inr x)
    with Pair assms(3) have "g x s1 = (r, st')" by (simp add: andthen_def)
    with assms(2) have "length (inbox st') \<le> length (inbox s1)" by blast
    with le1 show ?thesis by simp
  qed
qed

lemma message_inbox_le:
  "message msg kw st = (r, st') \<Longrightarrow> length (inbox st') \<le> length (inbox st)"
  unfolding message_def
  by (erule andthen_inbox_le [rotated 2]) (auto dest: send_event_inbox_le)

lemma iter_nodes_next_inbox_le:
  "iter_nodes_next it st = (r, st') \<Longrightarrow> length (inbox st') \<le> length (inbox st)"
proof (induction it st arbitrary: r st' rule: iter_nodes_next.induct)
  case (3 st)
  then show ?case
    by (fastforce split: prod.splits sum.splits if_splits dest: send_event_inbox_le)
qed (auto split: sum.splits)

lemma iter_nodes_next_decr:
  "iter_nodes_next it st = (Inr (Some (x, it')), st') \<Longrightarrow>
     length (inbox st') < length (inbox st) \<or>
     (length (inbox st') = length (inbox st) \<and> iter_size it' < iter_size it)"
proof (induction it st arbitrary: x it' st' rule: iter_nodes_next.induct)
  case (3 st)
  then show ?case
    by (fastforce split: prod.splits sum.splits if_splits
          dest: send_event_inbox iter_nodes_next_inbox_le)
qed (auto split: sum.splits)


lemma advance_decr:
  "advance run it st = (Inr (Some (p, g')), st') \<Longrightarrow>
     length (inbox st') < length (inbox st) \<or>
     (length (inbox st') = length (inbox st) \<and> gen_size g' < Suc (Suc (iter_size it)))"
  by (auto simp: advance_def split: prod.splits sum.splits option.splits
        dest: iter_nodes_next_decr iter_nodes_next_inbox_le)

lemma iter_nodes_next_fresh:
  "iter_nodes_next (Pulling []) st = (Inr r, st') \<Longrightarrow> length (inbox st') < length (inbox st)"
  by (auto split: prod.splits sum.splits if_splits
        dest!: send_event_inbox iter_nodes_next_inbox_le)

lemma advance_inbox_le:
  "advance run it st = (r, st') \<Longrightarrow> length (inbox st') \<le> length (inbox st)"
  by (auto simp: advance_def split: prod.splits sum.splits option.splits
        dest: iter_nodes_next_inbox_le)

lemma test_generator_next_decr:
  "test_generator_next g st = (Inr (Some (p, g')), st') \<Longrightarrow>
     length (inbox st') < length (inbox st) \<or>
     (length (inbox st') = length (inbox st) \<and> gen_size g' < gen_size g)"
proof (cases g)
  case Fresh
  assume a: "test_generator_next g st = (Inr (Some (p, g')), st')"
  with Fresh obtain run it s1 where
    1: "iter_nodes_next (Pulling []) st = (Inr (Some (run, it)), s1)" and
    2: "advance run it s1 = (Inr (Some (p, g')), st')"
    by (auto split: prod.splits sum.splits option.splits)
  from iter_nodes_next_fresh [OF 1] advance_inbox_le [OF 2] show ?thesis by simp
next
  case (Holding nx it)
  assume "test_generator_next g st = (Inr (Some (p, g')), st')"
  with Holding show ?thesis by (auto dest: advance_decr)
qed auto

lemma pytest_runtest_logreport_inbox_le:
  "pytest_runtest_logreport rep st = (r, st') \<Longrightarrow> length (inbox st') \<le> length (inbox st)"
  by (auto simp: pytest_runtest_logreport_def andthen_def
        split: prod.splits sum.splits dest: send_event_inbox_le)

lemma handle_quit_inbox_le:
  "handle_quit st = (r, st') \<Longrightarrow> length (inbox st') \<le> length (inbox st)"
  by (auto simp: handle_quit_def message_def andthen_def
        split: prod.splits sum.splits dest: send_event_inbox_le)

lemma run_action_inbox_le:
  "run_action a st = (r, st') \<Longrightarrow> length (inbox st') \<le> length (inbox st)"
  by (cases a)
     (auto simp: pytest_runtest_logstart_def pytest_internalerror_def andthen_def Let_def
        split: prod.splits sum.splits list.splits
        dest: send_event_inbox_le pytest_runtest_logreport_inbox_le handle_quit_inbox_le)

lemma run_actions_inbox_le:
  "run_actions as st = (r, st') \<Longrightarrow> length (inbox st') \<le> length (inbox st)"
proof (induction as arbitrary: st)
  case Nil
  then show ?case by simp
next
  case (Cons a as)
  then show ?case
    by (fastforce split: prod.splits sum.splits dest: run_action_inbox_le)
qed

lemma loop_body_inbox_le:
  "loop_body item nx st = (r, st') \<Longrightarrow> length (inbox st') \<le> length (inbox st)"
  by (auto simp: loop_body_def run_protocol_def split: if_splits prod.splits sum.splits
        dest: message_inbox_le run_actions_inbox_le)

termination run_loop
  apply (relation "measures [\<lambda>(g, st). length (inbox st), \<lambda>(g, st). gen_size g]")
   apply simp
  apply (auto dest!: test_generator_next_decr [OF sym] loop_body_inbox_le [OF sym])
  done

termination test_generator_all
  apply (relation "measures [\<lambda>(g, st). length (inbox st), \<lambda>(g, st). gen_size g]")
   apply simp
  apply (auto dest!: test_generator_next_decr [OF sym])
  done

definition pytest_runtestloop :: "st \<Rightarrow> (error + bool) \<times> st" where
  "pytest_runtestloop st = run_loop Fresh st"

text \<open>\<^verbatim>\<open>SlaveManager.__init__\<close>, with the replies the master is going to give.\<close>

definition init :: "config \<Rightarrow> json list \<Rightarrow> st" where
  "init cfg replies =
     \<lparr>config = cfg, session = None, collection = None, quit_signaled = False,
      heap = [], inbox = replies, trace = []\<rparr>"

text \<open>An engine that runs each test with one start notice and nothing else.\<close>

definition plain_config :: config where
  "plain_config =
     \<lparr>collectonly = False,
      pytest_runtest_protocol = (\<lambda>item nextitem. [Runtest_logstart (nodeid item) PNone])\<rparr>"

section \<open>The reply decides what send_event does\<close>

text \<open>
  Claim C2. Whatever the event name and the (serializable) payload, once the master has
  replied, the reply alone fixes the outcome of \<^verbatim>\<open>send_event\<close>: the reply
  \<^verbatim>\<open>"die"\<close> raises \<^verbatim>\<open>SystemExit\<close>, the reply \<^verbatim>\<open>"ack"\<close> gives no result
  (Python's \<^verbatim>\<open>None\<close>), and any other reply is returned as it came. In each case
  exactly one request was sent and one reply taken; the replies still to come are
  untouched.
\<close>

theorem send_event_reply:
  assumes "dump_kwargs (heap st) (AList.update ''_event_name'' (PStr name) kwargs) = Some msg"
    and "inbox st = recv # rest"
  shows "send_event name kwargs st =
     (if recv = JStr ''die'' then Inl SystemExit
      else if recv = JStr ''ack'' then Inr JNull
      else Inr recv,
      st\<lparr>inbox := rest, trace := trace st @ [Sent msg, Received recv]\<rparr>)"
  using assms by (simp add: send_event_def Let_def)

theorem send_event_reply_witness:
  "send_event ''need_tests'' [] (init plain_config [JStr ''die'', JNull]) =
     (Inl SystemExit,
      (init plain_config [JNull])
        \<lparr>trace := [Sent [(''_event_name'', JStr ''need_tests'')], Received (JStr ''die'')]\<rparr>)
   \<and> send_event ''need_tests'' [] (init plain_config [JStr ''ack'']) =
     (Inr JNull,
      (init plain_config [])
        \<lparr>trace := [Sent [(''_event_name'', JStr ''need_tests'')], Received (JStr ''ack'')]\<rparr>)
   \<and> send_event ''need_tests'' [] (init plain_config [JList [JStr ''a'']]) =
     (Inr (JList [JStr ''a'']),
      (init plain_config [])
        \<lparr>trace := [Sent [(''_event_name'', JStr ''need_tests'')],
                   Received (JList [JStr ''a''])]\<rparr>)"
  using send_event_reply [of "init plain_config [JStr ''die'', JNull]" "''need_tests''" "[]"
      "[(''_event_name'', JStr ''need_tests'')]" "JStr ''die''" "[JNull]"]
    send_event_reply [of "init plain_config [JStr ''ack'']" "''need_tests''" "[]"
      "[(''_event_name'', JStr ''need_tests'')]" "JStr ''ack''" "[]"]
    send_event_reply [of "init plain_config [JList [JStr ''a'']]" "''need_tests''" "[]"
      "[(''_event_name'', JStr ''need_tests'')]" "JList [JStr ''a'']" "[]"]
  by (simp add: init_def dump_arg_def)

text \<open>The operations of the coordinator, as calls made on it one after the other.\<close>

datatype op =
    Op_send_event string "(string \<times> pyval) list"
  | Op_message string "(string \<times> pyval) list"
  | Op_collection_finish "item list"
  | Op_runtest_logstart string pyval
  | Op_runtest_logreport pyval
  | Op_internalerror string
  | Op_runtestloop
  | Op_sessionfinish
  | Op_handle_quit
  | Op_shutdown

text \<open>The state an operation leaves behind, whether it returned or raised.\<close>

fun apply_op :: "op \<Rightarrow> st \<Rightarrow> st" where
  "apply_op (Op_send_event name kwargs) st = snd (send_event name kwargs st)"
| "apply_op (Op_message msg kwargs) st = snd (message msg kwargs st)"
| "apply_op (Op_collection_finish items) st = snd (pytest_collection_finish items st)"
| "apply_op (Op_runtest_logstart nid location) st = snd (pytest_runtest_logstart nid location st)"
| "apply_op (Op_runtest_logreport report) st = snd (pytest_runtest_logreport report st)"
| "apply_op (Op_internalerror excrepr) st = snd (pytest_internalerror excrepr st)"
| "apply_op Op_runtestloop st = snd (pytest_runtestloop st)"
| "apply_op Op_sessionfinish st = snd (pytest_sessionfinish st)"
| "apply_op Op_handle_quit st = snd (handle_quit st)"
| "apply_op Op_shutdown st = snd (shutdown st)"

definition apply_ops :: "op list \<Rightarrow> st \<Rightarrow> st" where
  "apply_ops ops st = fold apply_op ops st"

declare iter_nodes_next.simps [simp del]
declare run_loop.simps [simp del]
declare test_generator_all.simps [simp del]

section \<open>What the operations leave alone\<close>

text \<open>
  \<open>keeps s s'\<close>: the configuration, the session and the collection are the same in
  \<open>s'\<close> as in \<open>s\<close>, and a quit flag set in \<open>s\<close> is set in \<open>s'\<close>.
\<close>

definition keeps :: "st \<Rightarrow> st \<Rightarrow> bool" where
  "keeps s s' \<longleftrightarrow>
     config s' = config s \<and> session s' = session s \<and> collection s' = collection s \<and>
     (quit_signaled s \<longrightarrow> quit_signaled s')"

lemma keeps_refl: "keeps s s"
  by (simp add: keeps_def)

lemma keeps_trans: "keeps s s' \<Longrightarrow> keeps s' s'' \<Longrightarrow> keeps s s''"
  by (simp add: keeps_def)

lemma send_event_keeps: "send_event name kwargs st = (r, st') \<Longrightarrow> keeps st st'"
  by (auto simp: keeps_def send_event_def Let_def split: option.splits list.splits if_splits)

lemma andthen_keeps:
  assumes "andthen f g st = (r, st')"
    and "\<And>r s'. f st = (r, s') \<Longrightarrow> keeps st s'"
    and "\<And>x s r s'. g x s = (r, s') \<Longrightarrow> keeps s s'"
  shows "keeps st st'"
proof (cases "f st")
  case (Pair a s1)
  with assms(2) have k1: "keeps st s1" by blast
  show ?thesis
  proof (cases a)
    case (Inl e)
    with Pair assms(1) k1 show ?thesis by (simp add: andthen_def)
  next
    case (Inr x)
    with Pair assms(1) have "g x s1 = (r, st')" by (simp add: andthen_def)
    with assms(3) have "keeps s1 st'" by blast
    with k1 show ?thesis by (rule keeps_trans)
  qed
qed

lemma message_keeps: "message msg kw st = (r, st') \<Longrightarrow> keeps st st'"
  unfolding message_def
  by (erule andthen_keeps) (auto dest: send_event_keeps simp: keeps_refl)

lemma pytest_runtest_logstart_keeps:
  "pytest_runtest_logstart nid loc st = (r, st') \<Longrightarrow> keeps st st'"
  unfolding pytest_runtest_logstart_def
  by (erule andthen_keeps) (auto dest: send_event_keeps simp: keeps_refl)

lemma pytest_runtest_logreport_keeps:
  "pytest_runtest_logreport rep st = (r, st') \<Longrightarrow> keeps st st'"
  by (auto simp: pytest_runtest_logreport_def andthen_def keeps_def
        split: prod.splits sum.splits dest!: send_event_keeps)

lemma pytest_internalerror_keeps:
  "pytest_internalerror e st = (r, st') \<Longrightarrow> keeps st st'"
  by (auto simp: pytest_internalerror_def andthen_def Let_def keeps_refl
        split: prod.splits sum.splits list.splits dest!: send_event_keeps)

lemma handle_quit_keeps: "handle_quit st = (r, st') \<Longrightarrow> keeps st st'"
  by (auto simp: handle_quit_def andthen_def keeps_def
        split: prod.splits sum.splits dest!: message_keeps)

lemma shutdown_keeps: "shutdown st = (r, st') \<Longrightarrow> keeps st st'"
  by (auto simp: shutdown_def andthen_def keeps_def
        split: prod.splits sum.splits dest!: message_keeps send_event_keeps)

lemma run_action_keeps: "run_action a st = (r, st') \<Longrightarrow> keeps st st'"
  by (cases a)
     (auto dest: pytest_runtest_logstart_keeps pytest_runtest_logreport_keeps
        pytest_internalerror_keeps handle_quit_keeps)

lemma run_actions_keeps: "run_actions as st = (r, st') \<Longrightarrow> keeps st st'"
proof (induction as arbitrary: st)
  case Nil
  then show ?case by (simp add: keeps_refl)
next
  case (Cons a as)
  obtain b s1 where a: "run_action a st = (b, s1)"
    by (cases "run_action a st")
  from run_action_keeps [OF a] have k1: "keeps st s1" .
  show ?case
  proof (cases b)
    case (Inl e)
    with a Cons.prems k1 show ?thesis by simp
  next
    case (Inr u)
    with a Cons.prems have "run_actions as s1 = (r, st')" by simp
    from Cons.IH [OF this] k1 show ?thesis by (blast intro: keeps_trans)
  qed
qed

lemma run_protocol_keeps: "run_protocol item nx st = (r, st') \<Longrightarrow> keeps st st'"
  by (auto simp: run_protocol_def keeps_def split: prod.splits sum.splits
        dest!: run_actions_keeps)

lemma loop_body_keeps: "loop_body item nx st = (r, st') \<Longrightarrow> keeps st st'"
  by (auto simp: loop_body_def split: if_splits dest: message_keeps run_protocol_keeps)

lemma iter_nodes_next_keeps: "iter_nodes_next it st = (r, st') \<Longrightarrow> keeps st st'"
proof (induction it st arbitrary: r st' rule: iter_nodes_next.induct)
  case (1 st)
  then show ?case by (simp add: iter_nodes_next.simps keeps_refl)
next
  case (2 nid rest st)
  then show ?case by (auto simp: iter_nodes_next.simps keeps_refl split: sum.splits)
next
  case (3 st)
  obtain a s1 where se: "send_event ''need_tests'' [] st = (a, s1)"
    by (cases "send_event ''need_tests'' [] st")
  from send_event_keeps [OF se] have k1: "keeps st s1" .
  show ?case
  proof (cases a)
    case (Inl e)
    with se "3.prems" k1 show ?thesis by (simp add: iter_nodes_next.simps)
  next
    case (Inr node_ids)
    show ?thesis
    proof (cases "truthy node_ids")
      case False
      with Inr se "3.prems" k1 show ?thesis by (simp add: iter_nodes_next.simps)
    next
      case True
      show ?thesis
      proof (cases "py_iter node_ids")
        case (Inl e)
        with True Inr se "3.prems" k1 show ?thesis by (simp add: iter_nodes_next.simps)
      next
        case ids: (Inr ids)
        with True Inr se "3.prems" have "iter_nodes_next (Pulling ids) s1 = (r, st')"
          by (simp add: iter_nodes_next.simps)
        from "3.IH" [OF se [symmetric] Inr _ ids this] True k1 show ?thesis
          by (auto intro: keeps_trans)
      qed
    qed
  qed
qed

lemma advance_keeps: "advance run it st = (r, st') \<Longrightarrow> keeps st st'"
  by (auto simp: advance_def split: prod.splits sum.splits option.splits
        dest: iter_nodes_next_keeps)

lemma test_generator_next_keeps: "test_generator_next g st = (r, st') \<Longrightarrow> keeps st st'"
proof (cases g)
  case Fresh
  assume a: "test_generator_next g st = (r, st')"
  obtain b s1 where n: "iter_nodes_next (Pulling []) st = (b, s1)"
    by (cases "iter_nodes_next (Pulling []) st")
  from iter_nodes_next_keeps [OF n] have k1: "keeps st s1" .
  from a Fresh n k1 show ?thesis
    by (auto split: sum.splits option.splits dest!: advance_keeps intro: keeps_trans)
next
  case (Holding nx it)
  assume "test_generator_next g st = (r, st')"
  with Holding show ?thesis by (auto dest: advance_keeps)
qed (auto simp: keeps_refl)

lemma run_loop_induct [case_names step]:
  assumes "\<And>g st.
      (\<And>item nx g' s1 u s2.
          test_generator_next g st = (Inr (Some ((item, nx), g')), s1) \<Longrightarrow>
          loop_body item nx s1 = (Inr u, s2) \<Longrightarrow> \<not> quit_signaled s2 \<Longrightarrow> P g' s2) \<Longrightarrow>
      P g st"
  shows "P g st"
proof (induction g st rule: run_loop.induct)
  case (1 g st)
  show ?case
  proof (rule assms)
    fix item nx g' s1 u s2
    assume a: "test_generator_next g st = (Inr (Some ((item, nx), g')), s1)"
      and b: "loop_body item nx s1 = (Inr u, s2)" and c: "\<not> quit_signaled s2"
    show "P g' s2"
      by (rule "1.IH" [OF a [symmetric] refl refl refl refl b [symmetric] refl c])
  qed
qed

lemma run_loop_cases [consumes 1, case_names gen_raise stop body_raise quit continue]:
  assumes "run_loop g st = (r, st')"
  obtains
    e where "test_generator_next g st = (Inl e, st')" "r = Inl e"
  | "test_generator_next g st = (Inr None, st')" "r = Inr True"
  | item nx g' s1 e where "test_generator_next g st = (Inr (Some ((item, nx), g')), s1)"
      "loop_body item nx s1 = (Inl e, st')" "r = Inl e"
  | item nx g' s1 u where "test_generator_next g st = (Inr (Some ((item, nx), g')), s1)"
      "loop_body item nx s1 = (Inr u, st')" "quit_signaled st'" "r = Inr True"
  | item nx g' s1 u s2 where "test_generator_next g st = (Inr (Some ((item, nx), g')), s1)"
      "loop_body item nx s1 = (Inr u, s2)" "\<not> quit_signaled s2" "run_loop g' s2 = (r, st')"
  using assms
  by (subst (asm) run_loop.simps)
     (auto split: prod.splits sum.splits option.splits if_splits)

lemma run_loop_keeps: "run_loop g st = (r, st') \<Longrightarrow> keeps st st'"
proof (induction g st rule: run_loop_induct)
  case (step g st)
  from step.prems show ?case
  proof (cases rule: run_loop_cases)
    case (continue item nx g' s1 u s2)
    from step.IH [OF continue] test_generator_next_keeps [OF continue(1)]
      loop_body_keeps [OF continue(2)]
    show ?thesis by (blast intro: keeps_trans)
  qed (auto dest!: test_generator_next_keeps loop_body_keeps intro: keeps_trans)
qed

lemma pytest_collection_finish_quit:
  "pytest_collection_finish items st = (r, st') \<Longrightarrow> quit_signaled st \<Longrightarrow> quit_signaled st'"
  by (auto simp: pytest_collection_finish_def andthen_def Let_def keeps_def
        split: prod.splits sum.splits dest!: send_event_keeps)

lemma keeps_snd_quit:
  fixes f :: "st \<Rightarrow> (error + 'a) \<times> st"
  assumes "\<And>r s'. f st = (r, s') \<Longrightarrow> keeps st s'" and "quit_signaled st"
  shows "quit_signaled (snd (f st))"
  using assms(1) [of "fst (f st)" "snd (f st)"] assms(2) by (simp add: keeps_def)

lemma apply_op_quit:
  assumes "quit_signaled st"
  shows "quit_signaled (apply_op op st)"
proof (cases op)
  case (Op_send_event name kw)
  then show ?thesis
    using keeps_snd_quit [of "send_event name kw" st, OF send_event_keeps assms] by simp
next
  case (Op_message msg kw)
  then show ?thesis
    using keeps_snd_quit [of "message msg kw" st, OF message_keeps assms] by simp
next
  case (Op_collection_finish items)
  then show ?thesis
    using pytest_collection_finish_quit [of items st _ "snd (pytest_collection_finish items st)"] assms
    by (cases "pytest_collection_finish items st") auto
next
  case (Op_runtest_logstart nid loc)
  then show ?thesis
    using keeps_snd_quit [of "pytest_runtest_logstart nid loc" st,
        OF pytest_runtest_logstart_keeps assms]
    by simp
next
  case (Op_runtest_logreport rep)
  then show ?thesis
    using keeps_snd_quit [of "pytest_runtest_logreport rep" st,
        OF pytest_runtest_logreport_keeps assms]
    by simp
next
  case (Op_internalerror e)
  then show ?thesis
    using keeps_snd_quit [of "pytest_internalerror e" st, OF pytest_internalerror_keeps assms]
    by simp
next
  case Op_runtestloop
  then show ?thesis
    using keeps_snd_quit [of "run_loop Fresh" st, OF run_loop_keeps assms]
    by (simp add: pytest_runtestloop_def)
next
  case Op_sessionfinish
  then show ?thesis
    using keeps_snd_quit [of shutdown st, OF shutdown_keeps assms]
    by (simp add: pytest_sessionfinish_def)
next
  case Op_handle_quit
  then show ?thesis
    using keeps_snd_quit [of handle_quit st, OF handle_quit_keeps assms] by simp
next
  case Op_shutdown
  then show ?thesis
    using keeps_snd_quit [of shutdown st, OF shutdown_keeps assms] by simp
qed

lemma apply_ops_quit: "quit_signaled st \<Longrightarrow> quit_signaled (apply_ops ops st)"
  unfolding apply_ops_def
  by (induction ops arbitrary: st) (auto intro: apply_op_quit)


section \<open>The quit flag\<close>

text \<open>
  Claim C7. The quit flag only ever goes from unset to set: whatever operations have been
  applied to the coordinator (\<^verbatim>\<open>send_event\<close>, \<^verbatim>\<open>message\<close>, the hooks, the run loop,
  \<^verbatim>\<open>handle_quit\<close>, \<^verbatim>\<open>shutdown\<close>, each returning or raising), if the flag is set
  after them, it is still set after any further operations.
\<close>

theorem quit_flag_one_way:
  "quit_signaled (apply_ops ops st) \<Longrightarrow> quit_signaled (apply_ops (ops @ later) st)"
  by (simp add: apply_ops_def apply_ops_quit [unfolded apply_ops_def])

theorem quit_flag_one_way_witness:
  "\<not> quit_signaled (init plain_config [JStr ''ack'', JStr ''ack'', JList [JStr ''t''], JNull])
   \<and> quit_signaled
        (apply_ops [Op_handle_quit]
           (init plain_config [JStr ''ack'', JStr ''ack'', JList [JStr ''t''], JNull]))
   \<and> quit_signaled
        (apply_ops
           ([Op_handle_quit] @
            [Op_collection_finish [Item ''t'' 0], Op_runtestloop, Op_message ''done'' []])
           (init plain_config [JStr ''ack'', JStr ''ack'', JList [JStr ''t''], JNull]))"
proof -
  have q: "quit_signaled
        (apply_ops [Op_handle_quit]
           (init plain_config [JStr ''ack'', JStr ''ack'', JList [JStr ''t''], JNull]))"
    by (simp add: apply_ops_def handle_quit_def message_def andthen_def send_event_def
          init_def dump_arg_def)
  from quit_flag_one_way [OF q] q show ?thesis
    by (simp add: init_def)
qed

lemma send_event_need_tests:
  "inbox st = recv # rest \<Longrightarrow>
   send_event ''need_tests'' [] st =
     (if recv = JStr ''die'' then Inl SystemExit
      else if recv = JStr ''ack'' then Inr JNull
      else Inr recv,
      st\<lparr>inbox := rest,
         trace := trace st @ [Sent [(''_event_name'', JStr ''need_tests'')], Received recv]\<rparr>)"
  by (simp add: send_event_def Let_def dump_arg_def)

lemma falsy_not_sentinel: "\<not> truthy r \<Longrightarrow> r \<noteq> JStr ''die'' \<and> r \<noteq> JStr ''ack''"
  by (cases r) auto

lemma iter_nodes_next_stop:
  assumes "inbox st = r # rest" and "\<not> truthy r"
  shows "iter_nodes_next (Pulling []) st =
     (Inr None,
      st\<lparr>inbox := rest,
         trace := trace st @ [Sent [(''_event_name'', JStr ''need_tests'')], Received r]\<rparr>)"
  using assms falsy_not_sentinel [OF assms(2)]
  by (simp add: iter_nodes_next.simps send_event_need_tests)

section \<open>No work at all\<close>

text \<open>
  Claim C8. When the first reply to \<^verbatim>\<open>need_tests\<close> is already empty or otherwise falsy,
  the generator yields no pair and the run loop returns normally (\<^verbatim>\<open>True\<close>), having
  sent that one request and nothing else: no error is raised.
\<close>

theorem no_work_is_not_an_error:
  assumes "inbox st = r # rest" and "\<not> truthy r"
  shows "test_generator_all Fresh st =
           (Inr [],
            st\<lparr>inbox := rest,
               trace := trace st @ [Sent [(''_event_name'', JStr ''need_tests'')], Received r]\<rparr>)
         \<and> pytest_runtestloop st =
           (Inr True,
            st\<lparr>inbox := rest,
               trace := trace st @ [Sent [(''_event_name'', JStr ''need_tests'')], Received r]\<rparr>)"
  by (simp add: test_generator_all.simps run_loop.simps pytest_runtestloop_def
        iter_nodes_next_stop [OF assms])

theorem no_work_is_not_an_error_witness:
  "test_generator_all Fresh (init plain_config [JList [], JStr ''later'']) =
     (Inr [],
      (init plain_config [JStr ''later''])
        \<lparr>trace := [Sent [(''_event_name'', JStr ''need_tests'')], Received (JList [])]\<rparr>)
   \<and> pytest_runtestloop (init plain_config [JList [], JStr ''later'']) =
     (Inr True,
      (init plain_config [JStr ''later''])
        \<lparr>trace := [Sent [(''_event_name'', JStr ''need_tests'')], Received (JList [])]\<rparr>)"
  using no_work_is_not_an_error [of "init plain_config [JList [], JStr ''later'']" "JList []"
      "[JStr ''later'']"]
  by (simp add: init_def)

section \<open>The signal handler\<close>

text \<open>The request that \<^verbatim>\<open>handle_quit\<close> sends.\<close>

definition quit_notice :: "(string \<times> json) list" where
  "quit_notice =
     [(''message'', JStr ''shutting down after the current test due to QUIT signal''),
      (''markup'', JObj []),
      (''_event_name'', JStr ''message'')]"

text \<open>
  Claim C9, as stated, fails: \<^verbatim>\<open>handle_quit\<close> first calls \<^verbatim>\<open>self.message\<close>, which
  sends a request on the channel and takes a reply from it. With the reply
  \<^verbatim>\<open>"ack"\<close> the trace shows the exchange; with the reply \<^verbatim>\<open>"die"\<close> the handler
  raises \<^verbatim>\<open>SystemExit\<close> and the flag is not set at all.
\<close>

theorem handle_quit_uses_channel:
  "handle_quit (init plain_config [JStr ''ack'', JNull]) =
     (Inr (),
      (init plain_config [JNull])
        \<lparr>quit_signaled := True, trace := [Sent quit_notice, Received (JStr ''ack'')]\<rparr>)
   \<and> handle_quit (init plain_config [JStr ''die'', JNull]) =
     (Inl SystemExit,
      (init plain_config [JNull])
        \<lparr>quit_signaled := False, trace := [Sent quit_notice, Received (JStr ''die'')]\<rparr>)"
  by (simp add: handle_quit_def message_def andthen_def send_event_def init_def
        dump_arg_def quit_notice_def)

text \<open>
  Claim C9, amended. \<^verbatim>\<open>handle_quit\<close> sends one \<^verbatim>\<open>message\<close> request and waits for its
  reply. If no reply comes it blocks; if the reply is \<^verbatim>\<open>"die"\<close> it raises
  \<^verbatim>\<open>SystemExit\<close> and leaves the flag as it was; on any other reply it sets the quit
  flag. Nothing else of the coordinator's state changes: configuration, session,
  collection and store are as before.
\<close>

theorem handle_quit_effect:
  "handle_quit st =
     (case inbox st of
        [] \<Rightarrow> (Inl RecvBlocked, st\<lparr>trace := trace st @ [Sent quit_notice]\<rparr>)
      | recv # rest \<Rightarrow>
          (if recv = JStr ''die'' then Inl SystemExit else Inr (),
           st\<lparr>inbox := rest,
              trace := trace st @ [Sent quit_notice, Received recv],
              quit_signaled := (if recv = JStr ''die'' then quit_signaled st else True)\<rparr>))"
  by (cases st)
     (simp add: handle_quit_def message_def andthen_def send_event_def Let_def
        dump_arg_def quit_notice_def split: list.splits)

theorem handle_quit_effect_witness:
  "handle_quit (init plain_config [JNull, JNull]) =
     (Inr (),
      (init plain_config [JNull])
        \<lparr>trace := [Sent quit_notice, Received JNull], quit_signaled := True\<rparr>)"
  using handle_quit_effect [of "init plain_config [JNull, JNull]"]
  by (simp add: init_def)

section \<open>What the operations add to the trace\<close>

fun is_wire :: "obs \<Rightarrow> bool" where
  "is_wire (Sent m) = True"
| "is_wire (Received r) = True"
| "is_wire (Began item nextitem) = False"
| "is_wire (Finished item) = False"

text \<open>
  \<open>grows s s'\<close>: the trace of \<open>s'\<close> is the trace of \<open>s\<close> followed by requests and
  replies only.
\<close>

definition grows :: "st \<Rightarrow> st \<Rightarrow> bool" where
  "grows s s' \<longleftrightarrow> (\<exists>t. trace s' = trace s @ t \<and> list_all is_wire t)"

text \<open>The tests begun in a trace, in order.\<close>

fun began :: "obs list \<Rightarrow> item list" where
  "began [] = []"
| "began (Began item nextitem # t) = item # began t"
| "began (Sent m # t) = began t"
| "began (Received r # t) = began t"
| "began (Finished item # t) = began t"

lemma grows_refl: "grows s s"
  by (simp add: grows_def)

lemma grows_trans: "grows s s' \<Longrightarrow> grows s' s'' \<Longrightarrow> grows s s''"
  by (auto simp: grows_def)

lemma grows_heap: "grows s (s\<lparr>heap := h\<rparr>)"
  by (simp add: grows_def)

lemma send_event_grows: "send_event name kwargs st = (r, st') \<Longrightarrow> grows st st'"
  by (auto simp: grows_def send_event_def Let_def split: option.splits list.splits if_splits)

lemma andthen_grows:
  assumes "andthen f g st = (r, st')"
    and "\<And>r s'. f st = (r, s') \<Longrightarrow> grows st s'"
    and "\<And>x s r s'. g x s = (r, s') \<Longrightarrow> grows s s'"
  shows "grows st st'"
proof (cases "f st")
  case (Pair a s1)
  with assms(2) have k1: "grows st s1" by blast
  show ?thesis
  proof (cases a)
    case (Inl e)
    with Pair assms(1) k1 show ?thesis by (simp add: andthen_def)
  next
    case (Inr x)
    with Pair assms(1) have "g x s1 = (r, st')" by (simp add: andthen_def)
    with assms(3) have "grows s1 st'" by blast
    with k1 show ?thesis by (rule grows_trans)
  qed
qed

lemma message_grows: "message msg kw st = (r, st') \<Longrightarrow> grows st st'"
  unfolding message_def
  by (erule andthen_grows) (auto dest: send_event_grows simp: grows_refl)

lemma pytest_collection_finish_grows:
  "pytest_collection_finish items st = (r, st') \<Longrightarrow> grows st st'"
  by (auto simp: pytest_collection_finish_def andthen_def Let_def grows_def
        split: prod.splits sum.splits dest!: send_event_grows)

lemma pytest_runtest_logstart_grows:
  "pytest_runtest_logstart nid loc st = (r, st') \<Longrightarrow> grows st st'"
  unfolding pytest_runtest_logstart_def
  by (erule andthen_grows) (auto dest: send_event_grows simp: grows_refl)

lemma pytest_runtest_logreport_grows:
  "pytest_runtest_logreport rep st = (r, st') \<Longrightarrow> grows st st'"
  by (auto simp: pytest_runtest_logreport_def andthen_def grows_def
        split: prod.splits sum.splits dest!: send_event_grows)

lemma pytest_internalerror_grows:
  "pytest_internalerror e st = (r, st') \<Longrightarrow> grows st st'"
  by (auto simp: pytest_internalerror_def andthen_def Let_def grows_refl
        split: prod.splits sum.splits list.splits dest!: send_event_grows)

lemma handle_quit_grows: "handle_quit st = (r, st') \<Longrightarrow> grows st st'"
  by (auto simp: handle_quit_def andthen_def grows_def
        split: prod.splits sum.splits dest!: message_grows)

lemma shutdown_grows: "shutdown st = (r, st') \<Longrightarrow> grows st st'"
  by (auto simp: shutdown_def andthen_def grows_def
        split: prod.splits sum.splits dest!: message_grows send_event_grows)

lemma run_action_grows: "run_action a st = (r, st') \<Longrightarrow> grows st st'"
  by (cases a)
     (auto dest: pytest_runtest_logstart_grows pytest_runtest_logreport_grows
        pytest_internalerror_grows handle_quit_grows)

lemma run_actions_grows: "run_actions as st = (r, st') \<Longrightarrow> grows st st'"
proof (induction as arbitrary: st)
  case Nil
  then show ?case by (simp add: grows_refl)
next
  case (Cons a as)
  obtain b s1 where a: "run_action a st = (b, s1)"
    by (cases "run_action a st")
  from run_action_grows [OF a] have k1: "grows st s1" .
  show ?case
  proof (cases b)
    case (Inl e)
    with a Cons.prems k1 show ?thesis by simp
  next
    case (Inr u)
    with a Cons.prems have "run_actions as s1 = (r, st')" by simp
    from Cons.IH [OF this] k1 show ?thesis by (blast intro: grows_trans)
  qed
qed

lemma began_append: "began (t @ t') = began t @ began t'"
  by (induction t rule: began.induct) auto

lemma began_wire: "list_all is_wire t \<Longrightarrow> began t = []"
  by (induction t rule: began.induct) auto

lemma grows_began: "grows s s' \<Longrightarrow> began (trace s') = began (trace s)"
  by (auto simp: grows_def began_append began_wire)

lemma run_actions_append:
  "run_actions (as @ bs) st =
     (case run_actions as st of
        (Inl e, st') \<Rightarrow> (Inl e, st')
      | (Inr u, st') \<Rightarrow> run_actions bs st')"
  by (induction as arbitrary: st) (auto split: prod.splits sum.splits)

section \<open>Quitting while a test runs\<close>

text \<open>
  Claim C6. Suppose the generator hands the run loop the pair \<open>(item, nx)\<close>, and while the
  engine runs \<open>item\<close> (after the calls \<open>pre\<close> it makes on the coordinator, before the
  calls \<open>post\<close>) the quit handler runs and sets the flag. Then the rest of the test, \<open>post\<close>,
  is carried out from the very state the handler left; and the run loop ends with the
  test: it returns \<^verbatim>\<open>True\<close> in the state in which the test finished (or raises what
  the test raised, in the state where it raised), so that \<open>item\<close> is the last test begun.
\<close>

theorem quit_during_test:
  assumes "test_generator_next g st = (Inr (Some ((item, nx), g')), s1)"
    and "\<not> collectonly (config s1)"
    and "pytest_runtest_protocol (config s1) item nx = pre @ Handle_quit # post"
    and "run_actions pre (s1\<lparr>trace := trace s1 @ [Began item nx]\<rparr>) = (Inr (), sa)"
    and "handle_quit sa = (Inr (), sb)"
    and "run_actions post sb = (rc, sc)"
  shows "quit_signaled sb
    \<and> run_loop g st =
        (case rc of
           Inl e \<Rightarrow> (Inl e, sc)
         | Inr u \<Rightarrow> (Inr True, sc\<lparr>trace := trace sc @ [Finished item]\<rparr>))
    \<and> began (trace (snd (run_loop g st))) = began (trace s1) @ [item]"
proof -
  have qb: "quit_signaled sb"
    using assms(5)
    by (auto simp: handle_quit_def andthen_def split: prod.splits sum.splits)
  from run_actions_keeps [OF assms(6)] qb have qc: "quit_signaled sc"
    by (simp add: keeps_def)
  have body: "loop_body item nx s1 =
      (case rc of
         Inl e \<Rightarrow> (Inl e, sc)
       | Inr u \<Rightarrow> (Inr (), sc\<lparr>trace := trace sc @ [Finished item]\<rparr>))"
    using assms(2-6)
    by (simp add: loop_body_def run_protocol_def run_actions_append split: sum.splits)
  have loop: "run_loop g st =
      (case rc of
         Inl e \<Rightarrow> (Inl e, sc)
       | Inr u \<Rightarrow> (Inr True, sc\<lparr>trace := trace sc @ [Finished item]\<rparr>))"
    using assms(1) body qc
    by (subst run_loop.simps) (simp split: sum.splits)
  have "grows (s1\<lparr>trace := trace s1 @ [Began item nx]\<rparr>) sa"
    by (rule run_actions_grows [OF assms(4)])
  moreover have "grows sa sb"
    by (rule handle_quit_grows [OF assms(5)])
  moreover have "grows sb sc"
    by (rule run_actions_grows [OF assms(6)])
  ultimately have "began (trace sc) = began (trace s1) @ [item]"
    by (simp add: grows_began began_append)
  with loop qb show ?thesis
    by (simp add: began_append split: sum.splits)
qed

text \<open>
  An engine that, for each test, reports the start, is interrupted by the quit signal, and
  then reports an internal error.
\<close>

definition quit_config :: config where
  "quit_config =
     \<lparr>collectonly = False,
      pytest_runtest_protocol =
        (\<lambda>item nextitem.
           [Runtest_logstart (nodeid item) PNone, Handle_quit, Internalerror ''boom''])\<rparr>"

definition quit_demo :: st where
  "quit_demo =
     (init quit_config
        [JList [JStr ''a'', JStr ''b''], JStr ''ack'', JStr ''ack'', JStr ''ack'', JStr ''ack''])
       \<lparr>collection := Some (collect [Item ''a'' 0, Item ''b'' 1])\<rparr>"

definition logstart_a :: "(string \<times> json) list" where
  "logstart_a =
     [(''nodeid'', JStr ''a''), (''location'', JNull), (''_event_name'', JStr ''runtest_logstart'')]"

definition boom_notice :: "(string \<times> json) list" where
  "boom_notice =
     [(''message'', JStr ''INTERNALERROR> INTERNALERROR> boom''),
      (''_event_name'', JStr ''internalerror'')]"

theorem quit_during_test_witness:
  "run_loop Fresh quit_demo =
     (Inr True,
      quit_demo
        \<lparr>quit_signaled := True,
         inbox := [JStr ''ack''],
         trace :=
           [Sent [(''_event_name'', JStr ''need_tests'')],
            Received (JList [JStr ''a'', JStr ''b'']),
            Began (Item ''a'' 0) (Some (Item ''b'' 1)),
            Sent logstart_a, Received (JStr ''ack''),
            Sent quit_notice, Received (JStr ''ack''),
            Sent boom_notice, Received (JStr ''ack''),
            Finished (Item ''a'' 0)]\<rparr>)
   \<and> began (trace (snd (run_loop Fresh quit_demo))) = [Item ''a'' 0]"
proof -
  let ?a = "Item ''a'' 0" and ?b = "Item ''b'' 1"
  let ?ack = "JStr ''ack''"
  let ?t1 = "[Sent [(''_event_name'', JStr ''need_tests'')],
              Received (JList [JStr ''a'', JStr ''b''])]"
  let ?s1 = "quit_demo\<lparr>inbox := [?ack, ?ack, ?ack, ?ack], trace := ?t1\<rparr>"
  let ?ta = "?t1 @ [Began ?a (Some ?b), Sent logstart_a, Received ?ack]"
  let ?sa = "quit_demo\<lparr>inbox := [?ack, ?ack, ?ack], trace := ?ta\<rparr>"
  let ?tb = "?ta @ [Sent quit_notice, Received ?ack]"
  let ?sb = "quit_demo\<lparr>quit_signaled := True, inbox := [?ack, ?ack], trace := ?tb\<rparr>"
  let ?tc = "?tb @ [Sent boom_notice, Received ?ack]"
  let ?sc = "quit_demo\<lparr>quit_signaled := True, inbox := [?ack], trace := ?tc\<rparr>"
  have p1: "test_generator_next Fresh quit_demo =
      (Inr (Some ((?a, Some ?b), Holding ?b (Pulling []))), ?s1)"
    by (simp add: quit_demo_def init_def collect_def iter_nodes_next.simps advance_def
          send_event_def dump_arg_def py_iter_def collection_getitem_def)
  have p2: "\<not> collectonly (config ?s1)"
    by (simp add: quit_demo_def init_def quit_config_def)
  have p3: "pytest_runtest_protocol (config ?s1) ?a (Some ?b) =
      [Runtest_logstart ''a'' PNone] @ Handle_quit # [Internalerror ''boom'']"
    by (simp add: quit_demo_def init_def quit_config_def)
  have p4: "run_actions [Runtest_logstart ''a'' PNone]
      (?s1\<lparr>trace := trace ?s1 @ [Began ?a (Some ?b)]\<rparr>) = (Inr (), ?sa)"
    by (simp add: quit_demo_def init_def pytest_runtest_logstart_def andthen_def
          send_event_def dump_arg_def logstart_a_def)
  have p5: "handle_quit ?sa = (Inr (), ?sb)"
    by (simp add: quit_demo_def init_def handle_quit_def message_def andthen_def
          send_event_def dump_arg_def quit_notice_def)
  have p6: "run_actions [Internalerror ''boom''] ?sb = (Inr (), ?sc)"
    by (simp add: quit_demo_def init_def pytest_internalerror_def andthen_def
          send_event_def dump_arg_def boom_notice_def splitlines_def strip_def is_space_def)
  from quit_during_test [OF p1 p2 p3 p4 p5 p6] show ?thesis
    by (simp add: quit_demo_def init_def)
qed

section \<open>Where the tests come from\<close>

definition is_need_tests :: "(string \<times> json) list \<Rightarrow> bool" where
  "is_need_tests m \<longleftrightarrow> map_of m ''_event_name'' = Some (JStr ''need_tests'')"

text \<open>The test identifiers that a reply to \<^verbatim>\<open>need_tests\<close> hands over.\<close>

definition reply_ids :: "json \<Rightarrow> json list" where
  "reply_ids r =
     (if r = JStr ''die'' \<or> r = JStr ''ack'' \<or> \<not> truthy r then []
      else case py_iter r of Inl e \<Rightarrow> [] | Inr ids \<Rightarrow> ids)"

text \<open>
  Reading a trace from its start: whether the last request was \<^verbatim>\<open>need_tests\<close> and is
  still unanswered, and the identifiers received so far in replies to \<^verbatim>\<open>need_tests\<close>.
\<close>

fun observe :: "obs \<Rightarrow> bool \<times> json list \<Rightarrow> bool \<times> json list" where
  "observe (Sent m) (f, seen) = (is_need_tests m, seen)"
| "observe (Received r) (f, seen) = (False, if f then seen @ reply_ids r else seen)"
| "observe (Began item nextitem) k = k"
| "observe (Finished item) k = k"

fun admissible :: "obs \<Rightarrow> bool \<times> json list \<Rightarrow> bool" where
  "admissible (Began item nextitem) (f, seen) = (JStr (nodeid item) \<in> set seen)"
| "admissible (Sent m) k = True"
| "admissible (Received r) k = True"
| "admissible (Finished item) k = True"

text \<open>Every test begun in the trace has an identifier received before it began.\<close>

fun from_master :: "bool \<times> json list \<Rightarrow> obs list \<Rightarrow> bool" where
  "from_master k [] = True"
| "from_master k (x # t) = (admissible x k \<and> from_master (observe x k) t)"

definition tests_from_master :: "obs list \<Rightarrow> bool" where
  "tests_from_master t = from_master (False, []) t"

definition seen_ids :: "st \<Rightarrow> json list" where
  "seen_ids st = snd (fold observe (trace st) (False, []))"

text \<open>Every key of the collection is the node id of the item it stands for.\<close>

definition coll_ok :: "st \<Rightarrow> bool" where
  "coll_ok st \<longleftrightarrow>
     (case collection st of
        None \<Rightarrow> True
      | Some coll \<Rightarrow> list_all (\<lambda>kv. nodeid (snd kv) = fst kv) coll)"

fun iter_ok :: "node_iter \<Rightarrow> json list \<Rightarrow> bool" where
  "iter_ok (Pulling ids) seen = (set ids \<subseteq> set seen)"
| "iter_ok Exhausted seen = True"

fun gen_ok :: "test_gen \<Rightarrow> json list \<Rightarrow> bool" where
  "gen_ok (Holding nx it) seen = (JStr (nodeid nx) \<in> set seen \<and> iter_ok it seen)"
| "gen_ok Fresh seen = True"
| "gen_ok Final seen = True"
| "gen_ok Closed seen = True"

lemma from_master_append:
  "from_master k (t @ t') = (from_master k t \<and> from_master (fold observe t k) t')"
  by (induction t arbitrary: k) auto

lemma observe_mono: "set (snd k) \<subseteq> set (snd (observe x k))"
  by (cases x; cases k) auto

lemma fold_observe_mono: "set (snd k) \<subseteq> set (snd (fold observe t k))"
proof (induction t arbitrary: k)
  case Nil
  then show ?case by simp
next
  case (Cons x t)
  from observe_mono [of k x] Cons [of "observe x k"] show ?case by auto
qed

lemma wire_from_master: "list_all is_wire t \<Longrightarrow> from_master k t"
  by (induction t arbitrary: k) (auto elim: is_wire.elims)

lemma grows_from_master:
  "grows s s' \<Longrightarrow> tests_from_master (trace s) \<Longrightarrow> tests_from_master (trace s')"
  by (auto simp: grows_def tests_from_master_def from_master_append wire_from_master)

lemma grows_seen: "grows s s' \<Longrightarrow> set (seen_ids s) \<subseteq> set (seen_ids s')"
proof -
  assume "grows s s'"
  then obtain t where "trace s' = trace s @ t"
    by (auto simp: grows_def)
  then have "seen_ids s' = snd (fold observe t (fold observe (trace s) (False, [])))"
    by (simp add: seen_ids_def)
  with fold_observe_mono [of "fold observe (trace s) (False, [])" t] show ?thesis
    by (simp add: seen_ids_def)
qed

lemma iter_ok_mono: "iter_ok it seen \<Longrightarrow> set seen \<subseteq> set seen' \<Longrightarrow> iter_ok it seen'"
  by (cases it) auto

lemma gen_ok_mono: "gen_ok g seen \<Longrightarrow> set seen \<subseteq> set seen' \<Longrightarrow> gen_ok g seen'"
  by (cases g) (auto intro: iter_ok_mono)

lemma coll_ok_lookup:
  "coll_ok st \<Longrightarrow> collection_getitem st nid = Inr x \<Longrightarrow> nid = JStr (nodeid x)"
  by (auto simp: coll_ok_def collection_getitem_def list_all_iff
        split: option.splits json.splits dest!: map_of_SomeD)

lemma keeps_coll_ok: "keeps s s' \<Longrightarrow> coll_ok s \<Longrightarrow> coll_ok s'"
  by (simp add: keeps_def coll_ok_def)

lemma seen_after_need_tests:
  "trace s' = trace s @ [Sent [(''_event_name'', JStr ''need_tests'')], Received r] \<Longrightarrow>
   seen_ids s' = seen_ids s @ reply_ids r"
  by (cases "fold observe (trace s) (False, [])") (simp add: seen_ids_def is_need_tests_def)

lemma need_tests_seen:
  assumes "send_event ''need_tests'' [] st = (Inr node_ids, s1)" and "truthy node_ids"
    and "py_iter node_ids = Inr ids"
  shows "seen_ids s1 = seen_ids st @ ids"
proof -
  from assms(1) obtain recv rest where ib: "inbox st = recv # rest"
    by (cases "inbox st") (auto simp: send_event_def Let_def split: option.splits)
  from assms(1,2) ib have r: "recv \<noteq> JStr ''die''" "recv \<noteq> JStr ''ack''" "node_ids = recv"
    and s1: "s1 = st\<lparr>inbox := rest,
        trace := trace st @ [Sent [(''_event_name'', JStr ''need_tests'')], Received recv]\<rparr>"
    by (auto simp: send_event_need_tests split: if_splits)
  from s1 have "seen_ids s1 = seen_ids st @ reply_ids recv"
    by (intro seen_after_need_tests) simp
  with r assms(2,3) show ?thesis by (simp add: reply_ids_def)
qed

lemma iter_nodes_next_inv:
  assumes "iter_nodes_next it st = (r, st')" and "coll_ok st" and "iter_ok it (seen_ids st)"
  shows "grows st st' \<and>
    (\<forall>x it'. r = Inr (Some (x, it')) \<longrightarrow>
       JStr (nodeid x) \<in> set (seen_ids st') \<and> iter_ok it' (seen_ids st'))"
  using assms
proof (induction it st arbitrary: r st' rule: iter_nodes_next.induct)
  case (1 st)
  then show ?case by (auto simp: iter_nodes_next.simps grows_refl)
next
  case (2 nid rest st)
  then show ?case
    by (auto simp: iter_nodes_next.simps grows_refl split: sum.splits dest: coll_ok_lookup)
next
  case (3 st)
  obtain a s1 where se: "send_event ''need_tests'' [] st = (a, s1)"
    by (cases "send_event ''need_tests'' [] st")
  from send_event_grows [OF se] have g1: "grows st s1" .
  from send_event_keeps [OF se] "3.prems"(2) have c1: "coll_ok s1"
    by (rule keeps_coll_ok)
  show ?case
  proof (cases a)
    case (Inl e)
    with se "3.prems" g1 show ?thesis by (auto simp: iter_nodes_next.simps)
  next
    case (Inr node_ids)
    show ?thesis
    proof (cases "truthy node_ids")
      case False
      with Inr se "3.prems" g1 show ?thesis by (auto simp: iter_nodes_next.simps)
    next
      case True
      show ?thesis
      proof (cases "py_iter node_ids")
        case (Inl e)
        with True Inr se "3.prems" g1 show ?thesis by (auto simp: iter_nodes_next.simps)
      next
        case ids: (Inr ids)
        with True Inr se "3.prems" have rec: "iter_nodes_next (Pulling ids) s1 = (r, st')"
          by (simp add: iter_nodes_next.simps)
        from need_tests_seen [OF se [unfolded Inr] True ids]
        have ok: "iter_ok (Pulling ids) (seen_ids s1)" by simp
        from "3.IH" [OF se [symmetric] Inr _ ids rec c1 ok] True g1 show ?thesis
          by (auto intro: grows_trans)
      qed
    qed
  qed
qed


lemma advance_inv:
  assumes "advance run it st = (r, st')" and "coll_ok st" and "iter_ok it (seen_ids st)"
    and "JStr (nodeid run) \<in> set (seen_ids st)"
  shows "grows st st' \<and>
    (\<forall>item nx g'. r = Inr (Some ((item, nx), g')) \<longrightarrow>
       JStr (nodeid item) \<in> set (seen_ids st') \<and> gen_ok g' (seen_ids st'))"
proof -
  obtain a s1 where n: "iter_nodes_next it st = (a, s1)"
    by (cases "iter_nodes_next it st")
  from iter_nodes_next_inv [OF n assms(2,3)] have g: "grows st s1"
    and ok: "\<And>x it'. a = Inr (Some (x, it')) \<Longrightarrow>
       JStr (nodeid x) \<in> set (seen_ids s1) \<and> iter_ok it' (seen_ids s1)"
    by auto
  from grows_seen [OF g] assms(4) have run: "JStr (nodeid run) \<in> set (seen_ids s1)"
    by auto
  from assms(1) n g ok run show ?thesis
    by (auto simp: advance_def split: sum.splits option.splits)
qed

lemma test_generator_next_inv:
  assumes "test_generator_next g st = (r, st')" and "coll_ok st" and "gen_ok g (seen_ids st)"
  shows "grows st st' \<and>
    (\<forall>item nx g'. r = Inr (Some ((item, nx), g')) \<longrightarrow>
       JStr (nodeid item) \<in> set (seen_ids st') \<and> gen_ok g' (seen_ids st'))"
proof (cases g)
  case Fresh
  obtain a s1 where n: "iter_nodes_next (Pulling []) st = (a, s1)"
    by (cases "iter_nodes_next (Pulling []) st")
  from iter_nodes_next_inv [OF n assms(2)] have g1: "grows st s1"
    and ok: "\<And>x it'. a = Inr (Some (x, it')) \<Longrightarrow>
       JStr (nodeid x) \<in> set (seen_ids s1) \<and> iter_ok it' (seen_ids s1)"
    by auto
  from iter_nodes_next_keeps [OF n] assms(2) have c1: "coll_ok s1"
    by (rule keeps_coll_ok)
  show ?thesis
  proof (cases a)
    case (Inl e)
    with assms(1) Fresh n g1 show ?thesis by auto
  next
    case (Inr y)
    show ?thesis
    proof (cases y)
      case None
      with Inr assms(1) Fresh n g1 show ?thesis by auto
    next
      case (Some xi)
      obtain run it where xi: "xi = (run, it)" by (cases xi)
      with Some Inr assms(1) Fresh n have adv: "advance run it s1 = (r, st')"
        by simp
      from ok [of run it] Some Inr xi
      have "JStr (nodeid run) \<in> set (seen_ids s1)" "iter_ok it (seen_ids s1)"
        by auto
      from advance_inv [OF adv c1 this(2,1)] g1 show ?thesis
        by (auto intro: grows_trans)
    qed
  qed
next
  case (Holding nx it)
  with assms advance_inv [of nx it st r st'] show ?thesis by simp
next
  case Final
  with assms show ?thesis by (auto simp: grows_refl)
next
  case Closed
  with assms show ?thesis by (auto simp: grows_refl)
qed

lemma seen_ids_trace_cong: "trace s' = trace s \<Longrightarrow> seen_ids s' = seen_ids s"
  by (simp add: seen_ids_def)

lemma seen_ids_began [simp]:
  "seen_ids (s\<lparr>trace := trace s @ [Began item nx]\<rparr>) = seen_ids s"
  by (simp add: seen_ids_def)

lemma seen_ids_finished [simp]:
  "seen_ids (s\<lparr>trace := trace s @ [Finished item]\<rparr>) = seen_ids s"
  by (simp add: seen_ids_def)

lemma from_master_began:
  "tests_from_master (t @ [Began item nx]) \<longleftrightarrow>
     tests_from_master t \<and> JStr (nodeid item) \<in> set (snd (fold observe t (False, [])))"
  by (cases "fold observe t (False, [])") (simp add: tests_from_master_def from_master_append)

lemma from_master_finished:
  "tests_from_master (t @ [Finished item]) \<longleftrightarrow> tests_from_master t"
  by (simp add: tests_from_master_def from_master_append)

lemma loop_body_inv:
  assumes "loop_body item nx st = (r, st')" and "JStr (nodeid item) \<in> set (seen_ids st)"
    and "tests_from_master (trace st)"
  shows "tests_from_master (trace st') \<and> set (seen_ids st) \<subseteq> set (seen_ids st')"
proof (cases "collectonly (config st)")
  case True
  with assms(1) have "grows st st'"
    by (auto simp: loop_body_def dest: message_grows)
  with assms(3) show ?thesis
    by (auto dest: grows_from_master grows_seen)
next
  case False
  let ?sb = "st\<lparr>trace := trace st @ [Began item nx]\<rparr>"
  obtain a s1 where ra: "run_actions (pytest_runtest_protocol (config st) item nx) ?sb = (a, s1)"
    by (cases "run_actions (pytest_runtest_protocol (config st) item nx) ?sb")
  from run_actions_grows [OF ra] have g: "grows ?sb s1" .
  from assms(2,3) have "tests_from_master (trace ?sb)"
    by (simp add: from_master_began seen_ids_def)
  with g have fm: "tests_from_master (trace s1)"
    by (rule grows_from_master)
  from grows_seen [OF g] have sub: "set (seen_ids st) \<subseteq> set (seen_ids s1)"
    by simp
  from assms(1) False ra fm sub show ?thesis
    by (auto simp: loop_body_def run_protocol_def from_master_finished split: sum.splits)
qed

lemma run_loop_inv:
  assumes "run_loop g st = (r, st')" and "coll_ok st" and "gen_ok g (seen_ids st)"
    and "tests_from_master (trace st)"
  shows "tests_from_master (trace st')"
  using assms
proof (induction g st rule: run_loop_induct)
  case (step g st)
  from step.prems(1) show ?case
  proof (cases rule: run_loop_cases)
    case (gen_raise e)
    from test_generator_next_inv [OF gen_raise(1) step.prems(2,3)] step.prems(4)
    show ?thesis by (auto dest: grows_from_master)
  next
    case stop
    from test_generator_next_inv [OF stop(1) step.prems(2,3)] step.prems(4)
    show ?thesis by (auto dest: grows_from_master)
  next
    case (body_raise item nx g' s1 e)
    from test_generator_next_inv [OF body_raise(1) step.prems(2,3)] step.prems(4)
    have "JStr (nodeid item) \<in> set (seen_ids s1)" "tests_from_master (trace s1)"
      by (auto dest: grows_from_master)
    from loop_body_inv [OF body_raise(2) this] show ?thesis by simp
  next
    case (quit item nx g' s1 u)
    from test_generator_next_inv [OF quit(1) step.prems(2,3)] step.prems(4)
    have "JStr (nodeid item) \<in> set (seen_ids s1)" "tests_from_master (trace s1)"
      by (auto dest: grows_from_master)
    from loop_body_inv [OF quit(2) this] show ?thesis by simp
  next
    case (continue item nx g' s1 u s2)
    from test_generator_next_inv [OF continue(1) step.prems(2,3)] step.prems(4)
    have 1: "JStr (nodeid item) \<in> set (seen_ids s1)" "tests_from_master (trace s1)"
      and g': "gen_ok g' (seen_ids s1)"
      by (auto dest: grows_from_master)
    from loop_body_inv [OF continue(2) 1] have 2: "tests_from_master (trace s2)"
      and sub: "set (seen_ids s1) \<subseteq> set (seen_ids s2)"
      by auto
    from test_generator_next_keeps [OF continue(1)] loop_body_keeps [OF continue(2)]
      step.prems(2)
    have c2: "coll_ok s2" by (blast intro: keeps_coll_ok)
    from step.IH [OF continue(1,2,3,4) c2 gen_ok_mono [OF g' sub] 2] show ?thesis .
  qed
qed

lemma update_list_all:
  "list_all P al \<Longrightarrow> P (k, v) \<Longrightarrow> list_all P (AList.update k v al)"
  by (induction al) auto

lemma collect_ok: "list_all (\<lambda>kv. nodeid (snd kv) = fst kv) (collect items)"
proof -
  have "list_all (\<lambda>kv. nodeid (snd kv) = fst kv) acc \<Longrightarrow>
      list_all (\<lambda>kv. nodeid (snd kv) = fst kv) (fold (\<lambda>it. AList.update (nodeid it) it) items acc)"
    for acc
  proof (induction items arbitrary: acc)
    case Nil
    then show ?case by simp
  next
    case (Cons a items)
    from update_list_all [OF Cons.prems, of "nodeid a" a]
    have "list_all (\<lambda>kv. nodeid (snd kv) = fst kv) (AList.update (nodeid a) a acc)"
      by simp
    from Cons.IH [OF this] show ?case by simp
  qed
  from this [of "[]"] show ?thesis by (simp add: collect_def)
qed

text \<open>What holds of the coordinator throughout a session.\<close>

definition session_ok :: "st \<Rightarrow> bool" where
  "session_ok st \<longleftrightarrow> coll_ok st \<and> tests_from_master (trace st)"

lemma session_ok_step:
  fixes f :: "st \<Rightarrow> (error + 'a) \<times> st"
  assumes "\<And>r s'. f st = (r, s') \<Longrightarrow> keeps st s'"
    and "\<And>r s'. f st = (r, s') \<Longrightarrow> grows st s'"
    and "session_ok st"
  shows "session_ok (snd (f st))"
  using assms(1) [of "fst (f st)" "snd (f st)"] assms(2) [of "fst (f st)" "snd (f st)"] assms(3)
  by (auto simp: session_ok_def dest: keeps_coll_ok grows_from_master)

lemma pytest_collection_finish_ok:
  assumes "session_ok st"
  shows "session_ok (snd (pytest_collection_finish items st))"
proof -
  obtain r s' where f: "pytest_collection_finish items st = (r, s')"
    by (cases "pytest_collection_finish items st")
  from pytest_collection_finish_grows [OF f] assms have "tests_from_master (trace s')"
    by (auto simp: session_ok_def dest: grows_from_master)
  moreover from f have "collection s' = Some (collect items)"
    by (auto simp: pytest_collection_finish_def andthen_def Let_def keeps_def
          split: prod.splits sum.splits dest!: send_event_keeps)
  ultimately show ?thesis
    using f collect_ok [of items] by (simp add: session_ok_def coll_ok_def)
qed

lemma pytest_runtestloop_ok:
  assumes "session_ok st"
  shows "session_ok (snd (pytest_runtestloop st))"
proof -
  obtain r s' where f: "run_loop Fresh st = (r, s')"
    by (cases "run_loop Fresh st")
  from run_loop_inv [OF f] run_loop_keeps [OF f] assms show ?thesis
    using f by (auto simp: session_ok_def pytest_runtestloop_def dest: keeps_coll_ok)
qed

lemma apply_op_ok:
  assumes "session_ok st"
  shows "session_ok (apply_op op st)"
proof (cases op)
  case (Op_send_event name kw)
  then show ?thesis
    using session_ok_step [of "send_event name kw" st, OF send_event_keeps send_event_grows assms]
    by simp
next
  case (Op_message msg kw)
  then show ?thesis
    using session_ok_step [of "message msg kw" st, OF message_keeps message_grows assms]
    by simp
next
  case (Op_collection_finish items)
  then show ?thesis
    using pytest_collection_finish_ok [OF assms] by simp
next
  case (Op_runtest_logstart nid loc)
  then show ?thesis
    using session_ok_step [of "pytest_runtest_logstart nid loc" st,
        OF pytest_runtest_logstart_keeps pytest_runtest_logstart_grows assms]
    by simp
next
  case (Op_runtest_logreport rep)
  then show ?thesis
    using session_ok_step [of "pytest_runtest_logreport rep" st,
        OF pytest_runtest_logreport_keeps pytest_runtest_logreport_grows assms]
    by simp
next
  case (Op_internalerror e)
  then show ?thesis
    using session_ok_step [of "pytest_internalerror e" st,
        OF pytest_internalerror_keeps pytest_internalerror_grows assms]
    by simp
next
  case Op_runtestloop
  then show ?thesis
    using pytest_runtestloop_ok [OF assms] by simp
next
  case Op_sessionfinish
  then show ?thesis
    using session_ok_step [of shutdown st, OF shutdown_keeps shutdown_grows assms]
    by (simp add: pytest_sessionfinish_def)
next
  case Op_handle_quit
  then show ?thesis
    using session_ok_step [of handle_quit st, OF handle_quit_keeps handle_quit_grows assms]
    by simp
next
  case Op_shutdown
  then show ?thesis
    using session_ok_step [of shutdown st, OF shutdown_keeps shutdown_grows assms]
    by simp
qed

lemma apply_ops_ok: "session_ok st \<Longrightarrow> session_ok (apply_ops ops st)"
  unfolding apply_ops_def
  by (induction ops arbitrary: st) (auto intro: apply_op_ok)

lemma init_ok: "session_ok (init cfg replies)"
  by (simp add: session_ok_def coll_ok_def tests_from_master_def init_def)


text \<open>The predicate does reject a test begun without its identifier having come in.\<close>

lemma tests_from_master_rejects:
  "\<not> tests_from_master
        [Sent [(''_event_name'', JStr ''need_tests'')], Received (JList [JStr ''a'']),
         Began (Item ''b'' 0) None]"
  by (simp add: tests_from_master_def is_need_tests_def reply_ids_def py_iter_def)

text \<open>
  Claim C3. In every session (the coordinator as \<^verbatim>\<open>__init__\<close> leaves it, then any
  operations in any order, the run loop among them, whatever the master replies and
  whatever the engine does while a test runs), every test that the coordinator hands to
  the test-execution protocol has a node id that the master had sent before, in a reply
  to a \<^verbatim>\<open>need_tests\<close> request of this session.
\<close>

theorem tests_come_from_master:
  "tests_from_master (trace (apply_ops ops (init cfg replies)))"
  using apply_ops_ok [OF init_ok, of ops cfg replies] by (simp add: session_ok_def)

definition two_tests :: st where
  "two_tests =
     apply_ops [Op_collection_finish [Item ''a'' 0, Item ''b'' 1], Op_runtestloop]
       (init plain_config
          [JStr ''ack'', JList [JStr ''a'', JStr ''b''], JStr ''ack'', JList [], JStr ''ack''])"

lemma two_tests_began: "began (trace two_tests) = [Item ''a'' 0, Item ''b'' 1]"
  by (simp add: two_tests_def apply_ops_def init_def plain_config_def
        pytest_collection_finish_def pytest_runtestloop_def collect_def
        run_loop.simps iter_nodes_next.simps advance_def loop_body_def run_protocol_def
        pytest_runtest_logstart_def andthen_def
        send_event_def dump_arg_def py_iter_def collection_getitem_def)

theorem tests_come_from_master_witness:
  "began (trace two_tests) = [Item ''a'' 0, Item ''b'' 1]
   \<and> tests_from_master (trace two_tests)"
  using tests_come_from_master
    [of "[Op_collection_finish [Item ''a'' 0, Item ''b'' 1], Op_runtestloop]" plain_config
      "[JStr ''ack'', JList [JStr ''a'', JStr ''b''], JStr ''ack'', JList [], JStr ''ack'']"]
    two_tests_began
  by (simp add: two_tests_def)

section \<open>Identifiers the coordinator has not collected\<close>

text \<open>\<open>in_coll st x\<close>: the collection maps the node id of \<open>x\<close> to \<open>x\<close>.\<close>

definition in_coll :: "st \<Rightarrow> item \<Rightarrow> bool" where
  "in_coll st x \<longleftrightarrow>
     (case collection st of None \<Rightarrow> False | Some coll \<Rightarrow> map_of coll (nodeid x) = Some x)"

fun held_ok :: "st \<Rightarrow> test_gen \<Rightarrow> bool" where
  "held_ok st (Holding nx it) = in_coll st nx"
| "held_ok st Fresh = True"
| "held_ok st Final = True"
| "held_ok st Closed = True"

lemma keeps_in_coll: "keeps s s' \<Longrightarrow> in_coll s' x = in_coll s x"
  by (simp add: keeps_def in_coll_def)

lemma getitem_in_coll: "coll_ok st \<Longrightarrow> collection_getitem st nid = Inr x \<Longrightarrow> in_coll st x"
  by (frule (1) coll_ok_lookup)
     (auto simp: collection_getitem_def in_coll_def split: option.splits)

lemma iter_nodes_next_coll:
  "iter_nodes_next it st = (Inr (Some (x, it')), st') \<Longrightarrow> coll_ok st \<Longrightarrow> in_coll st x"
proof (induction it st arbitrary: x it' st' rule: iter_nodes_next.induct)
  case (1 st)
  then show ?case by (simp add: iter_nodes_next.simps)
next
  case (2 nid rest st)
  then show ?case
    by (auto simp: iter_nodes_next.simps split: sum.splits dest: getitem_in_coll)
next
  case (3 st)
  from "3.prems"(1) obtain node_ids s1 ids where
    se: "send_event ''need_tests'' [] st = (Inr node_ids, s1)" and t: "truthy node_ids"
    and ids: "py_iter node_ids = Inr ids"
    and rec: "iter_nodes_next (Pulling ids) s1 = (Inr (Some (x, it')), st')"
    by (auto simp: iter_nodes_next.simps split: prod.splits sum.splits if_splits)
  from send_event_keeps [OF se] have k: "keeps st s1" .
  from "3.IH" [OF se [symmetric] refl _ ids rec keeps_coll_ok [OF k "3.prems"(2)]] t
  have "in_coll s1 x" by simp
  with k show ?case by (simp add: keeps_in_coll)
qed

lemma advance_coll:
  assumes "advance run it st = (Inr (Some ((item, nx), g')), st')" and "coll_ok st"
  shows "item = run \<and> held_ok st g'"
proof -
  from assms(1) consider
    (last) s1 where "iter_nodes_next it st = (Inr None, s1)" "item = run" "g' = Final"
  | (more) x it' s1 where "iter_nodes_next it st = (Inr (Some (x, it')), s1)" "item = run"
      "g' = Holding x it'"
    by (auto simp: advance_def split: prod.splits sum.splits option.splits)
  then show ?thesis
  proof cases
    case last
    then show ?thesis by simp
  next
    case more
    with iter_nodes_next_coll [OF more(1) assms(2)] show ?thesis by simp
  qed
qed

lemma test_generator_next_coll:
  assumes "test_generator_next g st = (Inr (Some ((item, nx), g')), st')" and "coll_ok st"
    and "held_ok st g"
  shows "in_coll st item \<and> held_ok st g'"
proof (cases g)
  case Fresh
  with assms(1) obtain run it s1 where
    n: "iter_nodes_next (Pulling []) st = (Inr (Some (run, it)), s1)" and
    adv: "advance run it s1 = (Inr (Some ((item, nx), g')), st')"
    by (auto split: prod.splits sum.splits option.splits)
  from iter_nodes_next_keeps [OF n] have k: "keeps st s1" .
  from advance_coll [OF adv keeps_coll_ok [OF k assms(2)]] iter_nodes_next_coll [OF n assms(2)]
  show ?thesis
    by (cases g') (auto simp: keeps_in_coll [OF k])
next
  case (Holding h it)
  with assms advance_coll [of h it st item nx g' st'] show ?thesis by simp
next
  case Final
  with assms(1) show ?thesis by simp
next
  case Closed
  with assms(1) show ?thesis by simp
qed

lemma held_ok_keeps: "keeps s s' \<Longrightarrow> held_ok s' g = held_ok s g"
  by (cases g) (simp_all add: keeps_in_coll)

lemma loop_body_began:
  assumes "loop_body item nx st = (r, st')"
  shows "began (trace st') = began (trace st) \<or> began (trace st') = began (trace st) @ [item]"
proof (cases "collectonly (config st)")
  case True
  with assms have "grows st st'"
    by (auto simp: loop_body_def dest: message_grows)
  then show ?thesis by (simp add: grows_began)
next
  case False
  let ?sb = "st\<lparr>trace := trace st @ [Began item nx]\<rparr>"
  obtain a s1 where ra: "run_actions (pytest_runtest_protocol (config st) item nx) ?sb = (a, s1)"
    by (cases "run_actions (pytest_runtest_protocol (config st) item nx) ?sb")
  from grows_began [OF run_actions_grows [OF ra]]
  have "began (trace s1) = began (trace st) @ [item]"
    by (simp add: began_append)
  with assms False ra show ?thesis
    by (auto simp: loop_body_def run_protocol_def began_append split: sum.splits)
qed

lemma iter_nodes_next_grows: "iter_nodes_next it st = (r, st') \<Longrightarrow> grows st st'"
proof (induction it st arbitrary: r st' rule: iter_nodes_next.induct)
  case (1 st)
  then show ?case by (auto simp: iter_nodes_next.simps grows_refl)
next
  case (2 nid rest st)
  then show ?case by (auto simp: iter_nodes_next.simps grows_refl split: sum.splits)
next
  case (3 st)
  obtain a s1 where se: "send_event ''need_tests'' [] st = (a, s1)"
    by (cases "send_event ''need_tests'' [] st")
  from send_event_grows [OF se] have g1: "grows st s1" .
  from "3.prems" se consider "st' = s1"
    | node_ids ids where "a = Inr node_ids" "truthy node_ids" "py_iter node_ids = Inr ids"
        "iter_nodes_next (Pulling ids) s1 = (r, st')"
    by (auto simp: iter_nodes_next.simps split: sum.splits if_splits)
  then show ?case
  proof cases
    case 1
    with g1 show ?thesis by simp
  next
    case 2
    from "3.IH" [OF se [symmetric] 2(1) _ 2(3,4)] 2(2) g1 show ?thesis
      by (auto intro: grows_trans)
  qed
qed

lemma advance_grows: "advance run it st = (r, st') \<Longrightarrow> grows st st'"
  by (auto simp: advance_def split: prod.splits sum.splits option.splits
        dest: iter_nodes_next_grows)

lemma test_generator_next_grows: "test_generator_next g st = (r, st') \<Longrightarrow> grows st st'"
proof (cases g)
  case Fresh
  assume a: "test_generator_next g st = (r, st')"
  obtain b s1 where n: "iter_nodes_next (Pulling []) st = (b, s1)"
    by (cases "iter_nodes_next (Pulling []) st")
  from iter_nodes_next_grows [OF n] have k1: "grows st s1" .
  from a Fresh n k1 show ?thesis
    by (auto split: sum.splits option.splits dest!: advance_grows intro: grows_trans)
next
  case (Holding nx it)
  assume "test_generator_next g st = (r, st')"
  with Holding show ?thesis by (auto dest: advance_grows)
qed (auto simp: grows_refl)

lemma list_all_in_coll_keeps:
  "keeps s s' \<Longrightarrow> list_all (in_coll s') xs = list_all (in_coll s) xs"
  by (simp add: list_all_iff keeps_in_coll)

lemma run_loop_began:
  assumes "run_loop g st = (r, st')" and "coll_ok st" and "held_ok st g"
  shows "\<exists>xs. began (trace st') = began (trace st) @ xs \<and> list_all (in_coll st) xs"
  using assms
proof (induction g st rule: run_loop_induct)
  case (step g st)
  have gen: "began (trace s1) = began (trace st)"
    if "test_generator_next g st = (a, s1)" for a s1
    using grows_began [OF test_generator_next_grows [OF that]] .
  have body: "\<exists>xs. began (trace s2) = began (trace st) @ xs \<and> list_all (in_coll st) xs"
    if n: "test_generator_next g st = (Inr (Some ((item, nx), g')), s1)"
      and b: "loop_body item nx s1 = (b, s2)" for item nx g' s1 b s2
  proof -
    from test_generator_next_coll [OF n step.prems(2,3)] have "in_coll st item"
      by simp
    with loop_body_began [OF b] gen [OF n] show ?thesis
      by auto
  qed
  from step.prems(1) show ?case
  proof (cases rule: run_loop_cases)
    case (gen_raise e)
    with gen show ?thesis by simp
  next
    case stop
    with gen show ?thesis by simp
  next
    case (body_raise item nx g' s1 e)
    from body [OF body_raise(1,2)] show ?thesis .
  next
    case (quit item nx g' s1 u)
    from body [OF quit(1,2)] show ?thesis .
  next
    case (continue item nx g' s1 u s2)
    from test_generator_next_keeps [OF continue(1)] loop_body_keeps [OF continue(2)]
    have k: "keeps st s2" by (rule keeps_trans)
    from test_generator_next_coll [OF continue(1) step.prems(2,3)] k
    have h: "held_ok s2 g'" by (simp add: held_ok_keeps)
    from step.IH [OF continue(1,2,3,4) keeps_coll_ok [OF k step.prems(2)] h]
    obtain ys where ys: "began (trace st') = began (trace s2) @ ys" "list_all (in_coll s2) ys"
      by blast
    from body [OF continue(1,2)]
    obtain xs where xs: "began (trace s2) = began (trace st) @ xs" "list_all (in_coll st) xs"
      by blast
    from xs ys list_all_in_coll_keeps [OF k, of ys] show ?thesis
      by auto
  qed
qed

lemma fst_collect: "fst ` set (collect items) = nodeid ` set items"
proof -
  have "fst ` set (fold (\<lambda>it. AList.update (nodeid it) it) items acc)
      = fst ` set acc \<union> nodeid ` set items" for acc
    by (induction items arbitrary: acc) (auto simp: dom_update)
  from this [of "[]"] show ?thesis by (simp add: collect_def)
qed

lemma not_collected:
  "s \<notin> nodeid ` set items \<Longrightarrow> map_of (collect items) s = None"
  by (simp add: map_of_eq_None_iff fst_collect)


text \<open>
  Claim C4. Let the collection be what the collection-finished hook recorded for
  \<open>items\<close>, and let \<open>s\<close> be the node id of none of them. When \<^verbatim>\<open>_iter_nodes\<close> comes
  to \<open>s\<close> it raises \<^verbatim>\<open>KeyError\<close> and changes nothing; the run loop waiting for
  the item after the one it holds raises the same error without beginning any test; a
  run loop whose first reply starts with \<open>s\<close> raises it having only made that exchange;
  and no run of the loop ever begins a test whose node id is \<open>s\<close>.
\<close>

theorem unknown_id_raises:
  assumes "collection st = Some (collect items)" and "s \<notin> nodeid ` set items"
  shows "iter_nodes_next (Pulling (JStr s # rest)) st = (Inl (KeyError (JStr s)), st)
    \<and> run_loop (Holding nx (Pulling (JStr s # rest))) st = (Inl (KeyError (JStr s)), st)
    \<and> (inbox st = JList (JStr s # ids) # later \<longrightarrow>
         pytest_runtestloop st =
           (Inl (KeyError (JStr s)),
            st\<lparr>inbox := later,
               trace := trace st @
                 [Sent [(''_event_name'', JStr ''need_tests'')],
                  Received (JList (JStr s # ids))]\<rparr>))
    \<and> s \<notin> nodeid ` set (drop (length (began (trace st)))
                            (began (trace (snd (pytest_runtestloop st)))))"
proof -
  from assms have look: "collection_getitem st' (JStr s) = Inl (KeyError (JStr s))"
    if "collection st' = collection st" for st'
    using that by (simp add: collection_getitem_def not_collected)
  have 1: "iter_nodes_next (Pulling (JStr s # rest)) st = (Inl (KeyError (JStr s)), st)"
    by (simp add: iter_nodes_next.simps look)
  have 2: "run_loop (Holding nx (Pulling (JStr s # rest))) st = (Inl (KeyError (JStr s)), st)"
    by (simp add: run_loop.simps advance_def 1)
  have 3: "pytest_runtestloop st =
           (Inl (KeyError (JStr s)),
            st\<lparr>inbox := later,
               trace := trace st @
                 [Sent [(''_event_name'', JStr ''need_tests'')],
                  Received (JList (JStr s # ids))]\<rparr>)"
    if "inbox st = JList (JStr s # ids) # later"
    by (simp add: pytest_runtestloop_def run_loop.simps iter_nodes_next.simps
          send_event_need_tests [OF that] py_iter_def look)
  have 4: "s \<notin> nodeid ` set (drop (length (began (trace st)))
                            (began (trace (snd (pytest_runtestloop st)))))"
  proof -
    obtain r st' where f: "run_loop Fresh st = (r, st')"
      by (cases "run_loop Fresh st")
    have "coll_ok st"
      using assms(1) collect_ok [of items] by (simp add: coll_ok_def)
    from run_loop_began [OF f this] obtain xs where
      xs: "began (trace st') = began (trace st) @ xs" "list_all (in_coll st) xs"
      by auto
    have "nodeid x \<noteq> s" if "x \<in> set xs" for x
    proof -
      from xs(2) that have "in_coll st x" by (simp add: list_all_iff)
      with assms(1) have "map_of (collect items) (nodeid x) = Some x"
        by (simp add: in_coll_def)
      with not_collected [OF assms(2)] show ?thesis by auto
    qed
    with f xs(1) show ?thesis
      by (auto simp: pytest_runtestloop_def)
  qed
  from 1 2 3 4 show ?thesis by blast
qed

definition unknown_demo :: st where
  "unknown_demo =
     (init plain_config [JList [JStr ''zzz'', JStr ''a''], JStr ''ack''])
       \<lparr>collection := Some (collect [Item ''a'' 0])\<rparr>"

theorem unknown_id_raises_witness:
  "iter_nodes_next (Pulling [JStr ''zzz'', JStr ''a'']) unknown_demo =
     (Inl (KeyError (JStr ''zzz'')), unknown_demo)
   \<and> run_loop (Holding (Item ''a'' 0) (Pulling [JStr ''zzz'', JStr ''a''])) unknown_demo =
     (Inl (KeyError (JStr ''zzz'')), unknown_demo)
   \<and> pytest_runtestloop unknown_demo =
     (Inl (KeyError (JStr ''zzz'')),
      unknown_demo
        \<lparr>inbox := [JStr ''ack''],
         trace := [Sent [(''_event_name'', JStr ''need_tests'')],
                   Received (JList [JStr ''zzz'', JStr ''a''])]\<rparr>)"
  using unknown_id_raises [of unknown_demo "[Item ''a'' 0]" "''zzz''" "[JStr ''a'']"
      "Item ''a'' 0" "[JStr ''a'']" "[JStr ''ack'']"]
  by (simp add: unknown_demo_def init_def)

section \<open>Work pairs\<close>

text \<open>
  The pairing as the specification words it: \<open>(item\<^sub>1, item\<^sub>2), (item\<^sub>2, item\<^sub>3), \<dots>,
  (item\<^sub>n, none)\<close>.
\<close>

fun work_pairs :: "item list \<Rightarrow> (item \<times> item option) list" where
  "work_pairs [] = []"
| "work_pairs [x] = [(x, None)]"
| "work_pairs (x # y # xs) = (x, Some y) # work_pairs (y # xs)"

text \<open>
  A chain: the second component of each pair is the first component of the pair after it,
  and the last pair, and no other, has no second component.
\<close>

fun chained :: "(item \<times> item option) list \<Rightarrow> bool" where
  "chained [] = True"
| "chained [(x, n)] = (n = None)"
| "chained ((x, n) # (y, m) # ps) = (n = Some y \<and> chained ((y, m) # ps))"

text \<open>The exchanges that a run of \<^verbatim>\<open>need_tests\<close> requests with the replies \<open>rs\<close> leaves.\<close>

definition exchanges :: "json list \<Rightarrow> obs list" where
  "exchanges rs = concat (map (\<lambda>r. [Sent [(''_event_name'', JStr ''need_tests'')], Received r]) rs)"

definition batch :: "string list \<Rightarrow> json" where
  "batch ids = JList (map JStr ids)"

text \<open>The number of \<^verbatim>\<open>need_tests\<close> requests in a trace.\<close>

fun need_tests_sent :: "obs list \<Rightarrow> nat" where
  "need_tests_sent [] = 0"
| "need_tests_sent (Sent m # t) = (if is_need_tests m then 1 else 0) + need_tests_sent t"
| "need_tests_sent (Received r # t) = need_tests_sent t"
| "need_tests_sent (Began item nextitem # t) = need_tests_sent t"
| "need_tests_sent (Finished item # t) = need_tests_sent t"

lemma work_pairs_Cons: "\<exists>n ps. work_pairs (y # xs) = (y, n) # ps"
  by (cases xs) auto

lemma chained_work_pairs: "chained (work_pairs xs)"
proof (induction xs rule: work_pairs.induct)
  case (3 x y xs)
  from work_pairs_Cons [of y xs] obtain n ps where "work_pairs (y # xs) = (y, n) # ps"
    by blast
  with 3 show ?case by simp
qed auto

lemma fst_work_pairs: "map fst (work_pairs xs) = xs"
  by (induction xs rule: work_pairs.induct) auto

lemma need_tests_sent_append:
  "need_tests_sent (t @ t') = need_tests_sent t + need_tests_sent t'"
  by (induction t rule: need_tests_sent.induct) auto

lemma need_tests_sent_exchanges: "need_tests_sent (exchanges rs) = length rs"
  by (induction rs) (auto simp: exchanges_def is_need_tests_def)

lemma getitem_known:
  "collection st = Some coll \<Longrightarrow> map_of coll i = Some x \<Longrightarrow>
   collection_getitem st (JStr i) = Inr x"
  by (simp add: collection_getitem_def)

lemma test_generator_all_final: "test_generator_all Final st = (Inr [], st)"
  by (simp add: test_generator_all.simps)

lemma test_generator_all_holding:
  assumes "collection st = Some coll"
    and "set ids \<union> set (concat batches) \<subseteq> dom (map_of coll)"
    and "[] \<notin> set batches"
    and "inbox st = map batch batches @ stop # later"
    and "\<not> truthy stop"
  shows "test_generator_all (Holding x (Pulling (map JStr ids))) st =
     (Inr (work_pairs (x # map (\<lambda>i. the (map_of coll i)) (ids @ concat batches))),
      st\<lparr>inbox := later, trace := trace st @ exchanges (map batch batches @ [stop])\<rparr>)"
  using assms
proof (induction batches arbitrary: x ids st)
  case Nil
  then show ?case
  proof (induction ids arbitrary: x st)
    case Nil
    from Nil.prems(4,5) have "iter_nodes_next (Pulling []) st =
        (Inr None, st\<lparr>inbox := later, trace := trace st @ exchanges [stop]\<rparr>)"
      by (simp add: iter_nodes_next_stop exchanges_def)
    then show ?case
      by (simp add: test_generator_all.simps [of "Holding x (Pulling [])"] advance_def
            test_generator_all_final)
  next
    case (Cons i ids)
    from Cons.prems(2) obtain y where y: "map_of coll i = Some y" by auto
    from getitem_known [OF Cons.prems(1) y]
    have "iter_nodes_next (Pulling (JStr i # map JStr ids)) st =
        (Inr (Some (y, Pulling (map JStr ids))), st)"
      by (simp add: iter_nodes_next.simps)
    moreover from Cons.IH [of st y] Cons.prems
    have "test_generator_all (Holding y (Pulling (map JStr ids))) st =
        (Inr (work_pairs (y # map (\<lambda>i. the (map_of coll i)) (ids @ concat []))),
         st\<lparr>inbox := later, trace := trace st @ exchanges (map batch [] @ [stop])\<rparr>)"
      by simp
    ultimately show ?case
      by (simp add: test_generator_all.simps [of "Holding x (Pulling (JStr i # map JStr ids))"]
            advance_def y)
  qed
next
  case (Cons b batches)
  note outer_IH = Cons.IH
  from Cons.prems show ?case
  proof (induction ids arbitrary: x st)
    case Nil
    from Nil.prems(3) obtain i b' where b: "b = i # b'" by (cases b) auto
    from Nil.prems(2) b obtain y where y: "map_of coll i = Some y" by auto
    let ?s1 = "st\<lparr>inbox := map batch batches @ stop # later,
                  trace := trace st @ exchanges [batch b]\<rparr>"
    from Nil.prems(4) b have se: "send_event ''need_tests'' [] st = (Inr (batch b), ?s1)"
      by (simp add: send_event_need_tests batch_def exchanges_def)
    have c1: "collection ?s1 = Some coll"
      using Nil.prems(1) by simp
    from getitem_known [OF c1 y] se b
    have n: "iter_nodes_next (Pulling []) st = (Inr (Some (y, Pulling (map JStr b'))), ?s1)"
      by (simp add: iter_nodes_next.simps batch_def py_iter_def)
    have "test_generator_all (Holding y (Pulling (map JStr b'))) ?s1 =
        (Inr (work_pairs (y # map (\<lambda>i. the (map_of coll i)) (b' @ concat batches))),
         ?s1\<lparr>inbox := later, trace := trace ?s1 @ exchanges (map batch batches @ [stop])\<rparr>)"
      using Nil.prems(2,3,5) b by (intro outer_IH [OF c1]) auto
    with n show ?case
      by (simp add: test_generator_all.simps [of "Holding x (Pulling [])"] advance_def y b
            exchanges_def)
  next
    case (Cons i ids)
    from Cons.prems(2) obtain y where y: "map_of coll i = Some y" by auto
    from getitem_known [OF Cons.prems(1) y]
    have "iter_nodes_next (Pulling (JStr i # map JStr ids)) st =
        (Inr (Some (y, Pulling (map JStr ids))), st)"
      by (simp add: iter_nodes_next.simps)
    moreover from Cons.IH [of st y] Cons.prems
    have "test_generator_all (Holding y (Pulling (map JStr ids))) st =
        (Inr (work_pairs (y # map (\<lambda>i. the (map_of coll i)) (ids @ concat (b # batches)))),
         st\<lparr>inbox := later,
            trace := trace st @ exchanges (map batch (b # batches) @ [stop])\<rparr>)"
      by simp
    ultimately show ?case
      by (simp add: test_generator_all.simps [of "Holding x (Pulling (JStr i # map JStr ids))"]
            advance_def y)
  qed
qed


lemma test_generator_all_fresh:
  assumes "collection st = Some coll"
    and "set (concat batches) \<subseteq> dom (map_of coll)"
    and "[] \<notin> set batches"
    and "inbox st = map batch batches @ stop # later"
    and "\<not> truthy stop"
  shows "test_generator_all Fresh st =
     (Inr (work_pairs (map (\<lambda>i. the (map_of coll i)) (concat batches))),
      st\<lparr>inbox := later, trace := trace st @ exchanges (map batch batches @ [stop])\<rparr>)"
proof (cases batches)
  case Nil
  with assms(4,5) have "iter_nodes_next (Pulling []) st =
      (Inr None, st\<lparr>inbox := later, trace := trace st @ exchanges [stop]\<rparr>)"
    by (simp add: iter_nodes_next_stop exchanges_def)
  with Nil show ?thesis
    by (simp add: test_generator_all.simps [of Fresh])
next
  case (Cons b bs)
  with assms(3) obtain i b' where b: "b = i # b'" by (cases b) auto
  from assms(2) Cons b obtain y where y: "map_of coll i = Some y" by auto
  let ?s1 = "st\<lparr>inbox := map batch bs @ stop # later,
                trace := trace st @ exchanges [batch b]\<rparr>"
  from assms(4) Cons have se: "send_event ''need_tests'' [] st = (Inr (batch b), ?s1)"
    by (simp add: send_event_need_tests batch_def exchanges_def)
  have c1: "collection ?s1 = Some coll"
    using assms(1) by simp
  from getitem_known [OF c1 y] se b
  have n: "iter_nodes_next (Pulling []) st = (Inr (Some (y, Pulling (map JStr b'))), ?s1)"
    by (simp add: iter_nodes_next.simps batch_def py_iter_def)
  have h: "test_generator_all (Holding y (Pulling (map JStr b'))) ?s1 =
      (Inr (work_pairs (y # map (\<lambda>i. the (map_of coll i)) (b' @ concat bs))),
       ?s1\<lparr>inbox := later, trace := trace ?s1 @ exchanges (map batch bs @ [stop])\<rparr>)"
    using assms(2,3,5) Cons b by (intro test_generator_all_holding [OF c1]) auto
  have "test_generator_all Fresh st = test_generator_all (Holding y (Pulling (map JStr b'))) ?s1"
    by (simp add: test_generator_all.simps [of Fresh]
          test_generator_all.simps [of "Holding y (Pulling (map JStr b'))"] n)
  with h show ?thesis
    by (simp add: Cons b y exchanges_def)
qed

lemma advance_shape:
  assumes "advance run it st = (Inr (Some ((a, nxt), g')), s1)"
  shows "a = run \<and> ((nxt = None \<and> g' = Final) \<or> (\<exists>n it'. nxt = Some n \<and> g' = Holding n it'))"
  using assms by (auto simp: advance_def split: prod.splits sum.splits option.splits)

lemma test_generator_next_shape:
  assumes "test_generator_next g st = (Inr (Some ((a, nxt), g')), s1)"
  shows "(\<forall>x it. g = Holding x it \<longrightarrow> a = x) \<and>
    ((nxt = None \<and> g' = Final) \<or> (\<exists>n it'. nxt = Some n \<and> g' = Holding n it'))"
  using assms
  by (cases g) (auto split: prod.splits sum.splits option.splits dest!: advance_shape)

lemma test_generator_all_induct [case_names step]:
  assumes "\<And>g st.
      (\<And>p g' s1. test_generator_next g st = (Inr (Some (p, g')), s1) \<Longrightarrow> P g' s1) \<Longrightarrow> P g st"
  shows "P g st"
proof (induction g st rule: test_generator_all.induct)
  case (1 g st)
  show ?case
  proof (rule assms)
    fix p g' s1
    assume a: "test_generator_next g st = (Inr (Some (p, g')), s1)"
    show "P g' s1"
      by (rule "1.IH" [OF a [symmetric] refl refl refl])
  qed
qed

lemma test_generator_all_chained:
  assumes "test_generator_all g st = (Inr ps, st')"
  shows "chained ps \<and> (\<forall>x it. g = Holding x it \<longrightarrow> (\<exists>m qs. ps = (x, m) # qs)) \<and>
    (g = Final \<longrightarrow> ps = [])"
  using assms
proof (induction g st arbitrary: ps rule: test_generator_all_induct)
  case (step g st)
  from step.prems consider
    (stop) "test_generator_next g st = (Inr None, st')" "ps = []"
  | (yield) a nxt g' s1 qs where "test_generator_next g st = (Inr (Some ((a, nxt), g')), s1)"
      "test_generator_all g' s1 = (Inr qs, st')" "ps = (a, nxt) # qs"
    by (subst (asm) test_generator_all.simps)
       (auto split: prod.splits sum.splits option.splits)
  then show ?case
  proof cases
    case stop
    then show ?thesis
      by (cases g) (auto simp: advance_def split: prod.splits sum.splits option.splits)
  next
    case yield
    from yield(1) have "g \<noteq> Final" by auto
    with step.IH [OF yield(1,2)] test_generator_next_shape [OF yield(1)] yield(3)
    show ?thesis by auto
  qed
qed


text \<open>
  Claim C1. Let the master answer the \<^verbatim>\<open>need_tests\<close> requests with the non-empty batches
  \<open>batches\<close> of collected identifiers and then with a falsy reply \<open>stop\<close>. Then the
  generator, run to its end, yields exactly the work pairs of the items named, in the
  order delivered: a chain in which each pair's second component is the next pair's
  first, and only the last pair has none. It has sent one request per batch and one more;
  the replies after \<open>stop\<close> are untouched. And whatever the master replies, the pairs of
  a generator that runs to its end form such a chain.

  For the replies \<^verbatim>\<open>["a","b"]\<close>, \<^verbatim>\<open>["c"]\<close>, \<^verbatim>\<open>[]\<close> (the instance below) the pairs are
  \<open>(a, b), (b, c), (c, None)\<close> and three requests are sent.
\<close>

theorem work_pairs_chain:
  assumes "collection st = Some coll"
    and "set (concat batches) \<subseteq> dom (map_of coll)"
    and "[] \<notin> set batches"
    and "inbox st = map batch batches @ stop # later"
    and "\<not> truthy stop"
  shows "test_generator_all Fresh st =
       (Inr (work_pairs (map (\<lambda>i. the (map_of coll i)) (concat batches))),
        st\<lparr>inbox := later, trace := trace st @ exchanges (map batch batches @ [stop])\<rparr>)
    \<and> chained (work_pairs (map (\<lambda>i. the (map_of coll i)) (concat batches)))
    \<and> map fst (work_pairs (map (\<lambda>i. the (map_of coll i)) (concat batches))) =
        map (\<lambda>i. the (map_of coll i)) (concat batches)
    \<and> need_tests_sent (exchanges (map batch batches @ [stop])) = Suc (length batches)
    \<and> (test_generator_all Fresh st0 = (Inr ps, st0') \<longrightarrow> chained ps)"
  using test_generator_all_fresh [OF assms] chained_work_pairs fst_work_pairs
    test_generator_all_chained [of Fresh st0 ps st0']
  by (simp add: need_tests_sent_exchanges)

definition abc_demo :: st where
  "abc_demo =
     (init plain_config [batch [''a'', ''b''], batch [''c''], JList [], JStr ''ack''])
       \<lparr>collection := Some (collect [Item ''a'' 0, Item ''b'' 1, Item ''c'' 2])\<rparr>"

theorem work_pairs_chain_witness:
  "test_generator_all Fresh abc_demo =
     (Inr [(Item ''a'' 0, Some (Item ''b'' 1)),
           (Item ''b'' 1, Some (Item ''c'' 2)),
           (Item ''c'' 2, None)],
      abc_demo
        \<lparr>inbox := [JStr ''ack''],
         trace :=
           [Sent [(''_event_name'', JStr ''need_tests'')],
            Received (JList [JStr ''a'', JStr ''b'']),
            Sent [(''_event_name'', JStr ''need_tests'')],
            Received (JList [JStr ''c'']),
            Sent [(''_event_name'', JStr ''need_tests'')],
            Received (JList [])]\<rparr>)
   \<and> need_tests_sent (trace (snd (test_generator_all Fresh abc_demo))) = 3
   \<and> chained [(Item ''a'' 0, Some (Item ''b'' 1)),
               (Item ''b'' 1, Some (Item ''c'' 2)),
               (Item ''c'' 2, None)]"
proof -
  let ?coll = "[(''a'', Item ''a'' 0), (''b'', Item ''b'' 1), (''c'', Item ''c'' 2)]"
  have c: "collection abc_demo = Some ?coll"
    by (simp add: abc_demo_def collect_def)
  have k: "set (concat [[''a'', ''b''], [''c'']]) \<subseteq> dom (map_of ?coll)"
    by simp
  have n: "[] \<notin> set [[''a'', ''b''], [''c'']]"
    by simp
  have i: "inbox abc_demo = map batch [[''a'', ''b''], [''c'']] @ JList [] # [JStr ''ack'']"
    by (simp add: abc_demo_def init_def)
  have f: "\<not> truthy (JList [])"
    by simp
  from work_pairs_chain [OF c k n i f, of abc_demo "[]" abc_demo] show ?thesis
    by (simp add: exchanges_def batch_def abc_demo_def init_def is_need_tests_def)
qed

section \<open>serialize_report and the store\<close>

lemma store_take: "take d (store d c h) = take d h"
  by (simp add: store_def)

lemma store_length: "length (store d c h) = length h"
  by (simp add: store_def)

lemma serialize_fields_take:
  "serialize_fields d names h = (r, h') \<Longrightarrow> take d h' = take d h \<and> length h' = length h"
proof (induction names arbitrary: h)
  case Nil
  then show ?case by simp
next
  case (Cons name names)
  show ?case
  proof (cases "deref h d")
    case None
    with Cons.prems show ?thesis by simp
  next
    case (Some c)
    show ?thesis
    proof (cases c)
      case (Instance i)
      with Some Cons.prems show ?thesis by simp
    next
      case (Dict kvs)
      show ?thesis
      proof (cases "map_of kvs name")
        case None
        with Some Dict Cons.prems show ?thesis by simp
      next
        case v: (Some v)
        from Cons.prems Some Dict v consider
          (upd) c' where "serialize_fields d names (store d c' h) = (r, h')"
        | (same) "serialize_fields d names h = (r, h')"
          by (auto split: option.splits if_splits)
        then show ?thesis
        proof cases
          case upd
          from Cons.IH [OF upd] show ?thesis
            by (simp add: store_take store_length)
        next
          case same
          from Cons.IH [OF same] show ?thesis .
        qed
      qed
    qed
  qed
qed

lemma serialize_report_take:
  "serialize_report rep h = (r, h') \<Longrightarrow> take (length h) h' = h"
proof -
  assume a: "serialize_report rep h = (r, h')"
  show ?thesis
  proof (cases "instance_of h rep")
    case None
    with a show ?thesis by (simp add: serialize_report_def)
  next
    case (Some i)
    show ?thesis
    proof (cases "dict_of h i")
      case None
      with Some a show ?thesis by (simp add: serialize_report_def)
    next
      case kvs: (Some kvs)
      show ?thesis
      proof (cases "map_of kvs ''longrepr''")
        case None
        with Some kvs a show ?thesis by (auto simp: serialize_report_def alloc_def)
      next
        case lr: (Some lr)
        let ?h1 = "h @ [Dict kvs]"
        let ?v = "case toterminal_str ?h1 lr of Some s \<Rightarrow> PStr s | None \<Rightarrow> lr"
        let ?kvs1 = "AList.update ''longrepr'' ?v kvs"
        let ?h2 = "store (length h) (Dict ?kvs1) ?h1"
        obtain b h3 where sf: "serialize_fields (length h) (map fst ?kvs1) ?h2 = (b, h3)"
          by (cases "serialize_fields (length h) (map fst ?kvs1) ?h2")
        from a Some kvs lr sf have "h' = h3"
          by (auto simp: serialize_report_def alloc_def Let_def split: sum.splits)
        with serialize_fields_take [OF sf] show ?thesis
          by (simp add: store_take)
      qed
    qed
  qed
qed


text \<open>A report with a result object, a path and one more object, as a store.\<close>

definition report_heap :: heap where
  "report_heap =
     [Instance \<lparr>is_local = False, attrs = [''longrepr'', ''toterminal''],
                str_of = ''<TestReport>'', dict_ref = Some 1\<rparr>,
      Dict [(''nodeid'', PStr ''test_a''), (''longrepr'', PRef 2), (''fspath'', PRef 3),
            (''result'', PRef 4), (''item'', PRef 4)],
      Instance \<lparr>is_local = False, attrs = [''toterminal''],
                str_of = ''assert 1 == 2'', dict_ref = None\<rparr>,
      Instance \<lparr>is_local = True, attrs = [''strpath''],
                str_of = ''/tmp/test_a.py'', dict_ref = None\<rparr>,
      Instance \<lparr>is_local = False, attrs = [], str_of = ''<object>'', dict_ref = None\<rparr>]"

lemma serialize_report_heap:
  "serialize_report (PRef 0) report_heap =
     (Inr (PRef 5),
      report_heap @
        [Dict [(''nodeid'', PStr ''test_a''), (''longrepr'', PStr ''assert 1 == 2''),
               (''fspath'', PStr ''/tmp/test_a.py''), (''result'', PNone),
               (''item'', PRef 4)]])"
  by (simp add: serialize_report_def report_heap_def instance_of_def dict_of_def deref_def
        alloc_def store_def toterminal_str_def local_str_def hasattr_def nth_append)

section \<open>The report is left as it was\<close>

text \<open>
  Claim C10. \<^verbatim>\<open>serialize_report\<close> works on a copy of the report's \<^verbatim>\<open>__dict__\<close>:
  whether it returns or raises, every object that was in the store before the call (the
  report, its own dictionary, the result object, the paths) is in the store unchanged
  after it.
\<close>

theorem serialize_report_keeps_input:
  "take (length h) (snd (serialize_report rep h)) = h"
  using serialize_report_take [of rep h "fst (serialize_report rep h)" "snd (serialize_report rep h)"]
  by simp

theorem serialize_report_keeps_input_witness:
  "take 5 (snd (serialize_report (PRef 0) report_heap)) = report_heap
   \<and> snd (serialize_report (PRef 0) report_heap) \<noteq> report_heap"
  using serialize_report_keeps_input [of report_heap "PRef 0"] serialize_report_heap
  by (simp add: report_heap_def)

section \<open>What serialize_report does to each field\<close>

text \<open>
  The field \<open>k\<close> with value \<open>v\<close> after serialization: a \<^verbatim>\<open>py.path.local\<close> becomes
  its string; otherwise \<^verbatim>\<open>result\<close> becomes \<^verbatim>\<open>None\<close>; otherwise \<^verbatim>\<open>longrepr\<close>
  becomes its string if it has \<^verbatim>\<open>toterminal\<close>; any other field stays as it is.
\<close>

definition serialized_field :: "heap \<Rightarrow> string \<Rightarrow> pyval \<Rightarrow> pyval" where
  "serialized_field h k v =
     (case local_str h v of
        Some s \<Rightarrow> PStr s
      | None \<Rightarrow>
          if k = ''result'' then PNone
          else if k = ''longrepr''
          then (case toterminal_str h v of Some s \<Rightarrow> PStr s | None \<Rightarrow> v)
          else v)"

text \<open>The loop alone, on the fields \<open>names\<close>.\<close>

definition loop_field :: "heap \<Rightarrow> string list \<Rightarrow> string \<times> pyval \<Rightarrow> string \<times> pyval" where
  "loop_field h names kv =
     (if fst kv \<in> set names
      then (fst kv,
            case local_str h (snd kv) of
              Some s \<Rightarrow> PStr s
            | None \<Rightarrow> if fst kv = ''result'' then PNone else snd kv)
      else kv)"

lemma instance_of_fresh: "instance_of (h @ [Dict c]) v = instance_of h v"
  by (auto simp: instance_of_def deref_def nth_append split: pyval.splits)

lemma local_str_fresh: "local_str (h @ [Dict c]) v = local_str h v"
  by (simp add: local_str_def instance_of_fresh)

lemma hasattr_fresh: "hasattr (h @ [Dict c]) v name = hasattr h v name"
  by (simp add: hasattr_def instance_of_fresh)

lemma toterminal_str_fresh: "toterminal_str (h @ [Dict c]) v = toterminal_str h v"
  by (simp add: toterminal_str_def hasattr_fresh instance_of_fresh cong: option.case_cong)

lemma update_as_map:
  "distinct (map fst kvs) \<Longrightarrow> k \<in> fst ` set kvs \<Longrightarrow>
   AList.update k v kvs = map (\<lambda>kv. if fst kv = k then (k, v) else kv) kvs"
proof (induction kvs)
  case Nil
  then show ?case by simp
next
  case (Cons a kvs)
  show ?case
  proof (cases "fst a = k")
    case True
    with Cons.prems(1) have "k \<notin> fst ` set kvs" by auto
    then have "map (\<lambda>kv. if fst kv = k then (k, v) else kv) kvs = kvs"
      by (induction kvs) auto
    with True show ?thesis by (cases a) simp
  next
    case False
    with Cons show ?thesis by (cases a) auto
  qed
qed

lemma store_fresh: "store (length h) c (h @ [c0]) = h @ [c]"
  by (simp add: store_def)

lemma deref_fresh: "deref (h @ [c]) (length h) = Some c"
  by (simp add: deref_def)

lemma serialize_fields_map:
  assumes "distinct (map fst kvs)" and "distinct names" and "set names \<subseteq> fst ` set kvs"
  shows "serialize_fields (length h) names (h @ [Dict kvs]) =
     (Inr (), h @ [Dict (map (loop_field h names) kvs)])"
  using assms
proof (induction names arbitrary: kvs)
  case Nil
  then show ?case by (simp add: loop_field_def)
next
  case (Cons name names)
  from Cons.prems(3) obtain v where v: "map_of kvs name = Some v"
    by (cases "map_of kvs name") (auto simp: map_of_eq_None_iff)
  let ?v' = "case local_str h v of Some s \<Rightarrow> PStr s
             | None \<Rightarrow> if name = ''result'' then PNone else v"
  let ?kvs' = "map (\<lambda>kv. if fst kv = name then (name, ?v') else kv) kvs"
  have keys: "map fst ?kvs' = map fst kvs"
    by (induction kvs) auto
  from Cons.prems(3) have name_in: "name \<in> fst ` set kvs" by simp
  from v have "(name, v) \<in> set kvs" by (rule map_of_SomeD)
  with Cons.prems(1) have uniq: "kv = (name, v)" if "kv \<in> set kvs" "fst kv = name" for kv
    using that by (cases kv) (auto dest: eq_key_imp_eq_value)
  have step: "serialize_fields (length h) (name # names) (h @ [Dict kvs]) =
      serialize_fields (length h) names (h @ [Dict ?kvs'])"
  proof (cases "local_str h v")
    case (Some s)
    have "serialize_fields (length h) (name # names) (h @ [Dict kvs]) =
        serialize_fields (length h) names (h @ [Dict (AList.update name (PStr s) kvs)])"
      using v Some by (simp add: deref_fresh local_str_fresh store_fresh)
    also have "AList.update name (PStr s) kvs = ?kvs'"
    proof -
      from Some have eq: "?v' = PStr s" by simp
      show ?thesis unfolding eq by (rule update_as_map [OF Cons.prems(1) name_in])
    qed
    finally show ?thesis .
  next
    case None
    show ?thesis
    proof (cases "name = ''result''")
      case True
      have "serialize_fields (length h) (name # names) (h @ [Dict kvs]) =
          serialize_fields (length h) names (h @ [Dict (AList.update name PNone kvs)])"
        using v None True by (simp add: deref_fresh local_str_fresh store_fresh)
      also have "AList.update name PNone kvs = ?kvs'"
      proof -
        from None True have eq: "?v' = PNone" by simp
        show ?thesis unfolding eq by (rule update_as_map [OF Cons.prems(1) name_in])
      qed
      finally show ?thesis .
    next
      case False
      from None False have eq: "?v' = v" by simp
      have "?kvs' = kvs"
        unfolding eq
      proof (rule map_idI)
        fix kv assume "kv \<in> set kvs"
        with uniq [of kv] show "(if fst kv = name then (name, v) else kv) = kv"
          by simp
      qed
      moreover have "serialize_fields (length h) (name # names) (h @ [Dict kvs]) =
          serialize_fields (length h) names (h @ [Dict kvs])"
        using v None False by (simp add: deref_fresh local_str_fresh)
      ultimately show ?thesis by simp
    qed
  qed
  have d': "distinct (map fst ?kvs')"
    unfolding keys by (rule Cons.prems(1))
  have "fst ` set ?kvs' = set (map fst ?kvs')"
    by (simp only: set_map)
  with Cons.prems(3) have s': "set names \<subseteq> fst ` set ?kvs'"
    unfolding keys by simp
  from Cons.prems(2) have n': "distinct names" and fresh: "name \<notin> set names"
    by simp_all
  have "serialize_fields (length h) names (h @ [Dict ?kvs']) =
      (Inr (), h @ [Dict (map (loop_field h names) ?kvs')])"
    by (rule Cons.IH [OF d' n' s'])
  moreover have "map (loop_field h names) ?kvs' = map (loop_field h (name # names)) kvs"
  proof -
    have "loop_field h names (if fst kv = name then (name, ?v') else kv) =
        loop_field h (name # names) kv" if "kv \<in> set kvs" for kv
    proof (cases "fst kv = name")
      case True
      with uniq [OF that] have "kv = (name, v)" by simp
      with fresh show ?thesis
        by (simp add: loop_field_def cong: option.case_cong if_cong split: option.splits)
    next
      case False
      then show ?thesis by (simp add: loop_field_def)
    qed
    then show ?thesis
      by (simp only: map_map o_def cong: map_cong)
  qed
  ultimately show ?case using step by simp
qed


lemma local_toterminal_str:
  "local_str h v = Some s \<Longrightarrow> toterminal_str h v = Some s' \<Longrightarrow> s = s'"
  by (auto simp: local_str_def toterminal_str_def split: option.splits if_splits)

lemma local_str_PStr: "local_str h (PStr s) = None"
  by (simp add: local_str_def instance_of_def)

lemma serialize_report_map:
  assumes "instance_of h rep = Some i" and "dict_of h i = Some kvs"
    and "distinct (map fst kvs)" and "map_of kvs ''longrepr'' = Some lr"
  shows "serialize_report rep h =
     (Inr (PRef (length h)),
      h @ [Dict (map (\<lambda>kv. (fst kv, serialized_field h (fst kv) (snd kv))) kvs)])"
proof -
  let ?v = "case toterminal_str h lr of Some s \<Rightarrow> PStr s | None \<Rightarrow> lr"
  let ?kvs1 = "map (\<lambda>kv. if fst kv = ''longrepr'' then (''longrepr'', ?v) else kv) kvs"
  from assms(4) have lr_in: "(''longrepr'', lr) \<in> set kvs" by (rule map_of_SomeD)
  then have name_in: "''longrepr'' \<in> fst ` set kvs" by force
  from lr_in assms(3) have uniq: "kv = (''longrepr'', lr)"
    if "kv \<in> set kvs" "fst kv = ''longrepr''" for kv
    using that by (cases kv) (auto dest: eq_key_imp_eq_value)
  have upd: "AList.update ''longrepr'' ?v kvs = ?kvs1"
    by (rule update_as_map [OF assms(3) name_in])
  have keys: "map fst ?kvs1 = map fst kvs"
    by (induction kvs) auto
  have d1: "distinct (map fst ?kvs1)"
    unfolding keys by (rule assms(3))
  have "fst ` set ?kvs1 = set (map fst ?kvs1)"
    by (simp only: set_map)
  then have s1: "set (map fst kvs) \<subseteq> fst ` set ?kvs1"
    unfolding keys by simp
  have loop: "serialize_fields (length h) (map fst kvs) (h @ [Dict ?kvs1]) =
      (Inr (), h @ [Dict (map (loop_field h (map fst kvs)) ?kvs1)])"
    by (rule serialize_fields_map [OF d1 assms(3) s1])
  have fields: "map (loop_field h (map fst kvs)) ?kvs1 =
      map (\<lambda>kv. (fst kv, serialized_field h (fst kv) (snd kv))) kvs"
  proof -
    have "loop_field h (map fst kvs) (if fst kv = ''longrepr'' then (''longrepr'', ?v) else kv) =
        (fst kv, serialized_field h (fst kv) (snd kv))" if "kv \<in> set kvs" for kv
    proof (cases "fst kv = ''longrepr''")
      case True
      with uniq [OF that] have kv: "kv = (''longrepr'', lr)" by simp
      show ?thesis
      proof (cases "toterminal_str h lr")
        case None
        with kv name_in show ?thesis
          by (simp add: loop_field_def serialized_field_def cong: option.case_cong)
      next
        case (Some s')
        show ?thesis
        proof (cases "local_str h lr")
          case None
          with Some kv name_in show ?thesis
            by (simp add: loop_field_def serialized_field_def local_str_PStr)
        next
          case s: (Some s)
          from local_toterminal_str [OF s Some] s Some kv name_in show ?thesis
            by (simp add: loop_field_def serialized_field_def local_str_PStr)
        qed
      qed
    next
      case False
      with that show ?thesis
        by (simp add: loop_field_def serialized_field_def cong: option.case_cong)
    qed
    then show ?thesis
      by (simp only: map_map o_def cong: map_cong)
  qed
  have "serialize_report rep h =
      (case serialize_fields (length h) (map fst (AList.update ''longrepr'' ?v kvs))
              (h @ [Dict (AList.update ''longrepr'' ?v kvs)]) of
         (Inl e, h3) \<Rightarrow> (Inl e, h3)
       | (Inr u, h3) \<Rightarrow> (Inr (PRef (length h)), h3))"
    using assms(1,2,4)
    by (simp add: serialize_report_def alloc_def Let_def toterminal_str_fresh store_fresh)
  also have "\<dots> = (Inr (PRef (length h)), h @ [Dict (map (loop_field h (map fst kvs)) ?kvs1)])"
    unfolding upd keys loop by simp
  finally show ?thesis
    unfolding fields .
qed


section \<open>What serialize_report makes transport-safe\<close>

text \<open>A report whose \<^verbatim>\<open>result\<close> attribute is a path.\<close>

definition path_result_heap :: heap where
  "path_result_heap =
     [Instance \<lparr>is_local = False, attrs = [''longrepr'', ''result''],
                str_of = ''<CollectReport>'', dict_ref = Some 1\<rparr>,
      Dict [(''longrepr'', PNone), (''result'', PRef 2)],
      Instance \<lparr>is_local = True, attrs = [''strpath''],
                str_of = ''/tmp/tests'', dict_ref = None\<rparr>]"

text \<open>
  Claim C5, as stated, fails. In \<open>report_heap\<close> the report has an attribute \<^verbatim>\<open>item\<close>
  that refers to an object which is neither a \<^verbatim>\<open>py.path.local\<close> nor named
  \<^verbatim>\<open>result\<close>: \<^verbatim>\<open>serialize_report\<close> passes the reference on, the mapping cannot be
  dumped as JSON, and the hook that sends it raises \<^verbatim>\<open>TypeError\<close>. In
  \<open>path_result_heap\<close> the \<^verbatim>\<open>result\<close> attribute is a \<^verbatim>\<open>py.path.local\<close>: it is
  turned into its string, not into \<^verbatim>\<open>None\<close>.
\<close>

theorem serialize_report_not_always_safe:
  "serialize_report (PRef 0) report_heap =
     (Inr (PRef 5),
      report_heap @
        [Dict [(''nodeid'', PStr ''test_a''), (''longrepr'', PStr ''assert 1 == 2''),
               (''fspath'', PStr ''/tmp/test_a.py''), (''result'', PNone),
               (''item'', PRef 4)]])
   \<and> dump_arg (snd (serialize_report (PRef 0) report_heap)) (PRef 5) = None
   \<and> fst (pytest_runtest_logreport (PRef 0)
             ((init plain_config [JStr ''ack''])\<lparr>heap := report_heap\<rparr>)) = Inl TypeError
   \<and> serialize_report (PRef 0) path_result_heap =
     (Inr (PRef 3),
      path_result_heap @ [Dict [(''longrepr'', PNone), (''result'', PStr ''/tmp/tests'')]])"
proof -
  have 1: "serialize_report (PRef 0) report_heap =
     (Inr (PRef 5),
      report_heap @
        [Dict [(''nodeid'', PStr ''test_a''), (''longrepr'', PStr ''assert 1 == 2''),
               (''fspath'', PStr ''/tmp/test_a.py''), (''result'', PNone),
               (''item'', PRef 4)]])"
    by (rule serialize_report_heap)
  have len: "length report_heap = 5"
    by (simp add: report_heap_def)
  have 2: "dump_arg (snd (serialize_report (PRef 0) report_heap)) (PRef 5) = None"
    unfolding 1 by (simp add: dump_arg_def deref_def len nth_append)
  have 3: "fst (pytest_runtest_logreport (PRef 0)
             ((init plain_config [JStr ''ack''])\<lparr>heap := report_heap\<rparr>)) = Inl TypeError"
    by (simp add: pytest_runtest_logreport_def 1 andthen_def send_event_def init_def
          dump_arg_def deref_def len nth_append)
  have 4: "serialize_report (PRef 0) path_result_heap =
     (Inr (PRef 3),
      path_result_heap @ [Dict [(''longrepr'', PNone), (''result'', PStr ''/tmp/tests'')]])"
    by (simp add: serialize_report_def path_result_heap_def instance_of_def dict_of_def
          deref_def alloc_def store_def toterminal_str_def local_str_def hasattr_def nth_append)
  from 1 2 3 4 show ?thesis by simp
qed

text \<open>
  Claim C5, amended. For a report object with a \<^verbatim>\<open>longrepr\<close> attribute,
  \<^verbatim>\<open>serialize_report\<close> does not raise; it returns a new mapping with the fields of the
  report in which a field holding a \<^verbatim>\<open>py.path.local\<close> is replaced by its string form,
  any other field named \<^verbatim>\<open>result\<close> is set to \<^verbatim>\<open>None\<close>, \<^verbatim>\<open>longrepr\<close> is
  replaced by its string form when it has \<^verbatim>\<open>toterminal\<close>, and every other field is
  passed on as it is.
\<close>

theorem serialize_report_fields:
  assumes "instance_of h rep = Some i" and "dict_of h i = Some kvs"
    and "distinct (map fst kvs)" and "map_of kvs ''longrepr'' = Some lr"
  shows "serialize_report rep h =
     (Inr (PRef (length h)),
      h @ [Dict (map (\<lambda>kv. (fst kv, serialized_field h (fst kv) (snd kv))) kvs)])"
  using assms by (rule serialize_report_map)

theorem serialize_report_fields_witness:
  "serialize_report (PRef 0) path_result_heap =
     (Inr (PRef 3),
      path_result_heap @ [Dict [(''longrepr'', PNone), (''result'', PStr ''/tmp/tests'')]])"
proof -
  let ?i = "\<lparr>is_local = False, attrs = [''longrepr'', ''result''],
             str_of = ''<CollectReport>'', dict_ref = Some 1\<rparr>"
  let ?kvs = "[(''longrepr'', PNone), (''result'', PRef 2)]"
  have a: "instance_of path_result_heap (PRef 0) = Some ?i"
    by (simp add: path_result_heap_def instance_of_def deref_def)
  have b: "dict_of path_result_heap ?i = Some ?kvs"
    by (simp add: path_result_heap_def dict_of_def deref_def)
  have c: "distinct (map fst ?kvs)"
    by simp
  have d: "map_of ?kvs ''longrepr'' = Some PNone"
    by simp
  from serialize_report_fields [OF a b c d] show ?thesis
    by (simp add: serialized_field_def local_str_def toterminal_str_def instance_of_def
          deref_def path_result_heap_def)
qed

end
